theory Spec2Isabelle
  imports Complex_Main "HOL-Library.AList"
begin

section \<open>Data model\<close>

text \<open>
  A chunk is what \<^verbatim>\<open>json.loads\<close> returns for one line of the record store: a JSON value.
  The scripts treat it as a Python \<^verbatim>\<open>dict\<close>; a dict is modelled as an association list
  (insertion order kept, first binding of a key is the binding), read with \<open>map_of\<close> and
  written with \<open>AList.update\<close>, which replaces the value of a key in place and appends
  a new key at the end, as the assignment \<^verbatim>\<open>d[k] = v\<close> does.
\<close>

datatype json =
    JNull
  | JBool bool
  | JNum real
  | JStr string
  | JArr "json list"
  | JObj "(string \<times> json) list"

type_synonym dict = "(string \<times> json) list"

datatype error =
    JSONDecodeError
  | AttributeError
  | KeyError string
  | IndexError
  | RequestError string
  | OSError string

text \<open>Python truthiness of a JSON value, as used by \<^verbatim>\<open>not chunk.get('is_indexable', True)\<close>.\<close>

fun truthy :: "json \<Rightarrow> bool" where
  "truthy JNull = False"
| "truthy (JBool b) = b"
| "truthy (JNum x) = (x \<noteq> 0)"
| "truthy (JStr s) = (s \<noteq> [])"
| "truthy (JArr xs) = (xs \<noteq> [])"
| "truthy (JObj kvs) = (kvs \<noteq> [])"

text \<open>\<^verbatim>\<open>d[k]\<close>: raises \<^verbatim>\<open>KeyError\<close> when the key is missing.\<close>

definition getitem :: "dict \<Rightarrow> string \<Rightarrow> error + json" where
  "getitem d k = (case map_of d k of None \<Rightarrow> Inl (KeyError k) | Some v \<Rightarrow> Inr v)"

text \<open>\<^verbatim>\<open>d[k] = v\<close>.\<close>

definition setitem :: "dict \<Rightarrow> string \<Rightarrow> json \<Rightarrow> dict" where
  "setitem d k v = AList.update k v d"

text \<open>\<^verbatim>\<open>chunk.get(k, default)\<close> on a parsed line: only a dict has the method.\<close>

fun get_default :: "json \<Rightarrow> string \<Rightarrow> json \<Rightarrow> error + json" where
  "get_default (JObj d) k dflt = (case map_of d k of None \<Rightarrow> Inr dflt | Some v \<Rightarrow> Inr v)"
| "get_default _ k dflt = Inl AttributeError"

section \<open>Chunk source\<close>

text \<open>
  The record store is the list of its lines. \<open>loads\<close> stands for
  \<^verbatim>\<open>json.loads(line.strip())\<close>: it returns the parsed value or the error raised.
\<close>

text \<open>\<^verbatim>\<open>count is not None and len(chunks) >= count\<close>\<close>

definition count_reached :: "int option \<Rightarrow> 'a list \<Rightarrow> bool" where
  "count_reached count chunks =
     (case count of None \<Rightarrow> False | Some c \<Rightarrow> int (length chunks) \<ge> c)"

text \<open>\<^verbatim>\<open>load_chunks\<close> of embed_chunks.py; \<open>i\<close> is the index given by \<^verbatim>\<open>enumerate\<close>.\<close>

fun load_chunks_loop ::
  "('l \<Rightarrow> error + json) \<Rightarrow> int \<Rightarrow> int option \<Rightarrow> nat \<Rightarrow> 'l list \<Rightarrow> json list \<Rightarrow> error + json list"
where
  "load_chunks_loop loads offset count i [] chunks = Inr chunks"
| "load_chunks_loop loads offset count i (line # rest) chunks =
     (if int i < offset then load_chunks_loop loads offset count (Suc i) rest chunks
      else if count_reached count chunks then Inr chunks
      else (case loads line of
              Inl e \<Rightarrow> Inl e
            | Inr chunk \<Rightarrow> load_chunks_loop loads offset count (Suc i) rest (chunks @ [chunk])))"

definition load_chunks ::
  "('l \<Rightarrow> error + json) \<Rightarrow> 'l list \<Rightarrow> int \<Rightarrow> int option \<Rightarrow> error + json list"
where
  "load_chunks loads lines offset count = load_chunks_loop loads offset count 0 lines []"

text \<open>\<^verbatim>\<open>load_indexable_chunks\<close> of embed_chunks_v2.py.\<close>

fun load_indexable_loop ::
  "('l \<Rightarrow> error + json) \<Rightarrow> int \<Rightarrow> int option \<Rightarrow> 'l list \<Rightarrow> json list \<Rightarrow> nat
     \<Rightarrow> error + (json list \<times> nat)"
where
  "load_indexable_loop loads offset count [] chunks skipped = Inr (chunks, skipped)"
| "load_indexable_loop loads offset count (line # rest) chunks skipped =
     (case loads line of
        Inl e \<Rightarrow> Inl e
      | Inr chunk \<Rightarrow>
          (case get_default chunk ''is_indexable'' (JBool True) of
             Inl e \<Rightarrow> Inl e
           | Inr flag \<Rightarrow>
               if \<not> truthy flag
                 then load_indexable_loop loads offset count rest chunks (skipped + 1)
               else if int (length chunks) + int skipped < offset
                 then load_indexable_loop loads offset count rest chunks skipped
               else if count_reached count chunks
                 then Inr (chunks, skipped)
               else load_indexable_loop loads offset count rest (chunks @ [chunk]) skipped))"

definition load_indexable_chunks ::
  "('l \<Rightarrow> error + json) \<Rightarrow> 'l list \<Rightarrow> int \<Rightarrow> int option \<Rightarrow> error + (json list \<times> nat)"
where
  "load_indexable_chunks loads lines offset count =
     load_indexable_loop loads offset count lines [] 0"

text \<open>\<^verbatim>\<open>load_indexable_chunks\<close> of embed_via_http.py: the same filter, no window.\<close>

fun load_indexable_http_loop ::
  "('l \<Rightarrow> error + json) \<Rightarrow> 'l list \<Rightarrow> json list \<Rightarrow> nat \<Rightarrow> error + (json list \<times> nat)"
where
  "load_indexable_http_loop loads [] chunks skipped = Inr (chunks, skipped)"
| "load_indexable_http_loop loads (line # rest) chunks skipped =
     (case loads line of
        Inl e \<Rightarrow> Inl e
      | Inr chunk \<Rightarrow>
          (case get_default chunk ''is_indexable'' (JBool True) of
             Inl e \<Rightarrow> Inl e
           | Inr flag \<Rightarrow>
               if truthy flag
                 then load_indexable_http_loop loads rest (chunks @ [chunk]) skipped
               else load_indexable_http_loop loads rest chunks (skipped + 1)))"

definition load_indexable_chunks_http ::
  "('l \<Rightarrow> error + json) \<Rightarrow> 'l list \<Rightarrow> error + (json list \<times> nat)"
where
  "load_indexable_chunks_http loads lines = load_indexable_http_loop loads lines [] 0"

text \<open>
  What the specification asks of the filtered load: the usable records, in order, and the
  window \<open>(offset, count)\<close> taken over them.
\<close>

definition usable :: "json \<Rightarrow> bool" where
  "usable chunk = (case get_default chunk ''is_indexable'' (JBool True) of
                     Inl e \<Rightarrow> False | Inr flag \<Rightarrow> truthy flag)"

definition window :: "'a list \<Rightarrow> int \<Rightarrow> int option \<Rightarrow> 'a list" where
  "window xs offset count =
     (case count of
        None \<Rightarrow> drop (nat offset) xs
      | Some c \<Rightarrow> take (nat c) (drop (nat offset) xs))"

definition spec_filtered_load :: "json list \<Rightarrow> int \<Rightarrow> int option \<Rightarrow> json list" where
  "spec_filtered_load records offset count = window (filter usable records) offset count"

text \<open>Parsing every line of a list, stopping at the first error.\<close>

fun parse_all :: "('l \<Rightarrow> error + json) \<Rightarrow> 'l list \<Rightarrow> error + json list" where
  "parse_all loads [] = Inr []"
| "parse_all loads (line # rest) =
     (case loads line of
        Inl e \<Rightarrow> Inl e
      | Inr chunk \<Rightarrow> (case parse_all loads rest of Inl e \<Rightarrow> Inl e | Inr cs \<Rightarrow> Inr (chunk # cs)))"

text \<open>
  The exception that reading one line raises in the two \<^verbatim>\<open>load_indexable_chunks\<close>, if
  any: that of \<^verbatim>\<open>json.loads\<close>, or that of \<^verbatim>\<open>chunk.get\<close> on a value that is no object.
\<close>

definition record_error :: "('l \<Rightarrow> error + json) \<Rightarrow> 'l \<Rightarrow> error option" where
  "record_error loads line =
     (case loads line of
        Inl e \<Rightarrow> Some e
      | Inr chunk \<Rightarrow>
          (case get_default chunk ''is_indexable'' (JBool True) of
             Inl e \<Rightarrow> Some e
           | Inr flag \<Rightarrow> None))"

section \<open>Partition planner\<close>

text \<open>
  The body of the \<^verbatim>\<open>--stats\<close> loop of embed_chunks.py for one value of \<^verbatim>\<open>n_pods\<close>:
  the pairs \<open>(offset, count)\<close> it prints, for \<^verbatim>\<open>p in range(n_pods)\<close>.
\<close>

definition plan :: "int \<Rightarrow> int \<Rightarrow> (int \<times> int) list" where
  "plan total_chunks n_pods =
     (let per_pod = total_chunks div n_pods
      in map (\<lambda>p. let offset = p * per_pod;
                      count = (if p < n_pods - 1 then per_pod else total_chunks - offset)
                  in (offset, count))
             [0..n_pods - 1])"

text \<open>Position \<open>i\<close> lies in the window \<open>(offset, count)\<close>.\<close>

definition covers :: "int \<Rightarrow> int \<times> int \<Rightarrow> bool" where
  "covers i w = (fst w \<le> i \<and> i < fst w + snd w)"

text \<open>
  The windows \<open>ws\<close> tile the positions \<open>a \<le> i < b\<close>: each window starts where the one
  before it ends, no count is negative, the first starts at \<open>a\<close> and the last ends at \<open>b\<close>.
\<close>

fun contiguous :: "int \<Rightarrow> (int \<times> int) list \<Rightarrow> int \<Rightarrow> bool" where
  "contiguous a [] b = (a = b)"
| "contiguous a (w # ws) b = (fst w = a \<and> 0 \<le> snd w \<and> contiguous (a + snd w) ws b)"

section \<open>Batch processor\<close>

text \<open>
  The three scripts carry the same \<^verbatim>\<open>process_chunks\<close>; they differ in what they print, in
  the \<^verbatim>\<open>failed\<close> counter (embed_via_http.py only) and in the prefix of the file names.

  The embedding endpoint is outside the program. A \<open>service\<close> gives, for the number of calls
  made before and the texts sent, what \<^verbatim>\<open>get_embeddings_batch\<close> does: it raises (\<open>Inl\<close>) or
  returns the list under \<^verbatim>\<open>"embeddings"\<close> (\<open>Inr\<close>). The state records the texts of every call.

  The file system is outside the program too. A \<open>disk\<close> gives, for the number of writes
  attempted before, what \<^verbatim>\<open>open\<close> and \<^verbatim>\<open>json.dump\<close> do in \<^verbatim>\<open>save_batch\<close>: they raise
  (\<open>Some\<close>) or the file is written (\<open>None\<close>). The state records the files written, in order,
  each by its sequence number (the pod id and the prefix of the name are constant in a run)
  and its content, and counts the writes that raised. A write that raises leaves no file
  behind that the model counts: \<^verbatim>\<open>file_batch_num\<close> is not advanced, so the next write goes
  to the same name and replaces whatever the failed one left there. The run is taken from
  the point where \<^verbatim>\<open>os.makedirs\<close> has returned.

  The chunks are Python objects, changed in place by \<^verbatim>\<open>chunk["embedding"] = emb\<close> and held
  by reference in \<^verbatim>\<open>file_batch\<close>. The loader makes one fresh dict per line, so the objects
  are told apart by their position in the list given to \<^verbatim>\<open>process_chunks\<close>: \<open>store\<close> holds
  the current value of each object, a reference is a position in it, and a file receives
  the values the objects of \<^verbatim>\<open>file_batch\<close> have when it is written.

  An exception that a handler catches is returned beside the state reached when it was
  raised. An exception that no handler catches ends the run: \<open>aborted\<close> holds it, and every
  later step leaves the state as it is.
\<close>

definition EMBED_BATCH_SIZE :: nat where
  "EMBED_BATCH_SIZE = 25"

definition FILE_BATCH_SIZE :: nat where
  "FILE_BATCH_SIZE = 100"

type_synonym service = "nat \<Rightarrow> json list \<Rightarrow> error + json list"

type_synonym disk = "nat \<Rightarrow> error option"

text \<open>The lines printed, by their format and the values formatted into it.\<close>

datatype event =
    Progress int nat nat nat
  | ProgressHttp nat nat
  | ErrorAtBatch nat error
  | SkipChunk json error
  | Done int nat nat
  | DoneHttp nat nat
  | Warning nat

record pstate =
  store :: "dict list"
  processed :: nat
  file_batch :: "nat list"
  file_batch_num :: nat
  files :: "(nat \<times> dict list) list"
  refused :: nat
  calls :: "json list list"
  printed :: "event list"
  aborted :: "error option"

record hstate = pstate +
  failed :: nat

definition get_embeddings_batch ::
  "service \<Rightarrow> json list \<Rightarrow> 'a pstate_scheme \<Rightarrow> (error + json list) \<times> 'a pstate_scheme"
where
  "get_embeddings_batch service texts s =
     (service (length (calls s)) texts, s\<lparr>calls := calls s @ [texts]\<rparr>)"

text \<open>\<^verbatim>\<open>save_batch\<close>: \<^verbatim>\<open>json.dump\<close> writes the objects of \<open>batch\<close> as they are now.\<close>

definition save_batch ::
  "disk \<Rightarrow> nat list \<Rightarrow> nat \<Rightarrow> 'a pstate_scheme \<Rightarrow> error option \<times> 'a pstate_scheme"
where
  "save_batch disk batch batch_num s =
     (case disk (length (files s) + refused s) of
        None \<Rightarrow> (None, s\<lparr>files := files s @ [(batch_num, map (\<lambda>chunk. store s ! chunk) batch)]\<rparr>)
      | Some e \<Rightarrow> (Some e, s\<lparr>refused := refused s + 1\<rparr>))"

text \<open>\<^verbatim>\<open>chunks[i:j]\<close> for \<open>0 \<le> i \<le> j\<close>.\<close>

definition slice :: "'a list \<Rightarrow> nat \<Rightarrow> nat \<Rightarrow> 'a list" where
  "slice xs i j = take (j - i) (drop i xs)"

text \<open>\<^verbatim>\<open>range(0, total, EMBED_BATCH_SIZE)\<close>\<close>

definition batch_starts :: "nat \<Rightarrow> nat list" where
  "batch_starts n_total =
     map (\<lambda>j. j * EMBED_BATCH_SIZE) [0..<(n_total + EMBED_BATCH_SIZE - 1) div EMBED_BATCH_SIZE]"

text \<open>\<^verbatim>\<open>[c["text"] for c in batch_chunks]\<close>, on the values of the objects.\<close>

fun texts_of :: "dict list \<Rightarrow> error + json list" where
  "texts_of [] = Inr []"
| "texts_of (c # cs) =
     (case getitem c ''text'' of
        Inl e \<Rightarrow> Inl e
      | Inr t \<Rightarrow> (case texts_of cs of Inl e \<Rightarrow> Inl e | Inr ts \<Rightarrow> Inr (t # ts)))"

text \<open>
  The block both paths run for an embedded chunk: set the field, append to
  \<^verbatim>\<open>file_batch\<close>, count, and save the file batch when it is full. When \<^verbatim>\<open>save_batch\<close>
  raises, the two statements after it are not run.
\<close>

definition append_embedded ::
  "disk \<Rightarrow> nat \<Rightarrow> json \<Rightarrow> 'a pstate_scheme \<Rightarrow> error option \<times> 'a pstate_scheme"
where
  "append_embedded disk chunk emb s =
     (let s1 = s\<lparr>store := (store s)[chunk := setitem (store s ! chunk) ''embedding'' emb],
                 file_batch := file_batch s @ [chunk],
                 processed := processed s + 1\<rparr>
      in if length (file_batch s1) \<ge> FILE_BATCH_SIZE
         then (case save_batch disk (file_batch s1) (file_batch_num s1) s1 of
                 (None, s2) \<Rightarrow>
                   (None, s2\<lparr>file_batch_num := file_batch_num s2 + 1, file_batch := []\<rparr>)
               | (Some e, s2) \<Rightarrow> (Some e, s2))
         else (None, s1))"

text \<open>\<^verbatim>\<open>for chunk, emb in zip(batch_chunks, embeddings)\<close>, left at the first exception.\<close>

fun embed_group ::
  "disk \<Rightarrow> (nat \<times> json) list \<Rightarrow> 'a pstate_scheme \<Rightarrow> error option \<times> 'a pstate_scheme"
where
  "embed_group disk [] s = (None, s)"
| "embed_group disk ((chunk, emb) # rest) s =
     (case append_embedded disk chunk emb s of
        (None, s1) \<Rightarrow> embed_group disk rest s1
      | (Some e, s1) \<Rightarrow> (Some e, s1))"

text \<open>
  The handler \<^verbatim>\<open>except Exception as e2\<close> of the fallback loop: embed_chunks.py and
  embed_chunks_v2.py print; embed_via_http.py prints and counts. Reading
  \<^verbatim>\<open>chunk['chunk_id']\<close> there can raise, and nothing catches that.
\<close>

definition skip_chunk :: "nat \<Rightarrow> error \<Rightarrow> 'a pstate_scheme \<Rightarrow> 'a pstate_scheme" where
  "skip_chunk chunk e2 s =
     (case getitem (store s ! chunk) ''chunk_id'' of
        Inl e \<Rightarrow> s\<lparr>aborted := Some e\<rparr>
      | Inr cid \<Rightarrow> s\<lparr>printed := printed s @ [SkipChunk cid e2]\<rparr>)"

definition skip_chunk_http :: "nat \<Rightarrow> error \<Rightarrow> hstate \<Rightarrow> hstate" where
  "skip_chunk_http chunk e2 s =
     (case getitem (store s ! chunk) ''chunk_id'' of
        Inl e \<Rightarrow> s\<lparr>aborted := Some e\<rparr>
      | Inr cid \<Rightarrow> s\<lparr>printed := printed s @ [SkipChunk cid e2], failed := failed s + 1\<rparr>)"

text \<open>
  One round of the fallback loop, \<^verbatim>\<open>for chunk in batch_chunks: try: ... except ...\<close>, with
  the handler \<open>on_skip\<close>. \<^verbatim>\<open>get_embeddings_batch([chunk["text"]])[0]\<close> raises when the call
  raises and when the list returned is empty; \<^verbatim>\<open>save_batch\<close> raises inside the same
  \<^verbatim>\<open>try\<close>, after the chunk has been appended and counted.
\<close>

definition fallback_chunk ::
  "disk \<Rightarrow> (nat \<Rightarrow> error \<Rightarrow> 'a pstate_scheme \<Rightarrow> 'a pstate_scheme) \<Rightarrow> service \<Rightarrow> nat
     \<Rightarrow> 'a pstate_scheme \<Rightarrow> 'a pstate_scheme"
where
  "fallback_chunk disk on_skip service chunk s =
     (if aborted s \<noteq> None then s
      else case getitem (store s ! chunk) ''text'' of
        Inl e2 \<Rightarrow> on_skip chunk e2 s
      | Inr t \<Rightarrow>
          (case get_embeddings_batch service [t] s of
             (Inl e2, s1) \<Rightarrow> on_skip chunk e2 s1
           | (Inr [], s1) \<Rightarrow> on_skip chunk IndexError s1
           | (Inr (emb # _), s1) \<Rightarrow>
               (case append_embedded disk chunk emb s1 of
                  (None, s2) \<Rightarrow> s2
                | (Some e2, s2) \<Rightarrow> on_skip chunk e2 s2)))"

text \<open>
  The handler \<^verbatim>\<open>except Exception as e\<close> of the group: it prints, then runs the fallback loop
  over the whole group, the chunks the group loop has already appended included.
\<close>

definition fallback_group ::
  "disk \<Rightarrow> (nat \<Rightarrow> error \<Rightarrow> 'a pstate_scheme \<Rightarrow> 'a pstate_scheme) \<Rightarrow> service \<Rightarrow> nat list
     \<Rightarrow> nat \<Rightarrow> error \<Rightarrow> 'a pstate_scheme \<Rightarrow> 'a pstate_scheme"
where
  "fallback_group disk on_skip service batch_chunks i e s =
     fold (fallback_chunk disk on_skip service) batch_chunks
       (s\<lparr>printed := printed s @ [ErrorAtBatch i e]\<rparr>)"

text \<open>
  One round of \<^verbatim>\<open>for i in range(0, total, EMBED_BATCH_SIZE)\<close>; \<open>chunks\<close> is the list of
  references and \<open>progress\<close> the line the script prints after a group.
\<close>

definition process_batch ::
  "disk \<Rightarrow> (nat \<Rightarrow> error \<Rightarrow> 'a pstate_scheme \<Rightarrow> 'a pstate_scheme)
     \<Rightarrow> ('a pstate_scheme \<Rightarrow> event) \<Rightarrow> service \<Rightarrow> nat list \<Rightarrow> nat
     \<Rightarrow> 'a pstate_scheme \<Rightarrow> 'a pstate_scheme"
where
  "process_batch disk on_skip progress service chunks i s =
     (if aborted s \<noteq> None then s
      else
        let batch_chunks = slice chunks i (i + EMBED_BATCH_SIZE)
        in case texts_of (map (\<lambda>chunk. store s ! chunk) batch_chunks) of
             Inl e \<Rightarrow> s\<lparr>aborted := Some e\<rparr>
           | Inr texts \<Rightarrow>
               (case get_embeddings_batch service texts s of
                  (Inl e, s1) \<Rightarrow> fallback_group disk on_skip service batch_chunks i e s1
                | (Inr embeddings, s1) \<Rightarrow>
                    (case embed_group disk (zip batch_chunks embeddings) s1 of
                       (None, s2) \<Rightarrow> s2\<lparr>printed := printed s2 @ [progress s2]\<rparr>
                     | (Some e, s2) \<Rightarrow>
                         fallback_group disk on_skip service batch_chunks i e s2)))"

text \<open>
  \<^verbatim>\<open>if file_batch: save_batch(...); file_batch_num += 1\<close>, outside every \<^verbatim>\<open>try\<close>: when
  this write raises, the run ends there.
\<close>

definition save_remaining :: "disk \<Rightarrow> 'a pstate_scheme \<Rightarrow> 'a pstate_scheme" where
  "save_remaining disk s =
     (if file_batch s \<noteq> []
      then (case save_batch disk (file_batch s) (file_batch_num s) s of
              (None, s1) \<Rightarrow> s1\<lparr>file_batch_num := file_batch_num s1 + 1\<rparr>
            | (Some e, s1) \<Rightarrow> s1\<lparr>aborted := Some e\<rparr>)
      else s)"

text \<open>The loop of \<^verbatim>\<open>process_chunks\<close> and what follows it, from a state.\<close>

definition process_all ::
  "disk \<Rightarrow> (nat \<Rightarrow> error \<Rightarrow> 'a pstate_scheme \<Rightarrow> 'a pstate_scheme)
     \<Rightarrow> ('a pstate_scheme \<Rightarrow> event) \<Rightarrow> service \<Rightarrow> nat \<Rightarrow> 'a pstate_scheme \<Rightarrow> 'a pstate_scheme"
where
  "process_all disk on_skip progress service n_total s0 =
     (let s1 = fold (process_batch disk on_skip progress service [0..<n_total])
                 (batch_starts n_total) s0
      in if aborted s1 \<noteq> None then s1 else save_remaining disk s1)"

text \<open>\<^verbatim>\<open>process_chunks\<close> of embed_chunks.py and of embed_chunks_v2.py.\<close>

definition process_chunks :: "disk \<Rightarrow> service \<Rightarrow> dict list \<Rightarrow> int \<Rightarrow> pstate" where
  "process_chunks disk service chunks pod_id =
     (let n_total = length chunks;
          s0 = \<lparr>store = chunks, processed = 0, file_batch = [], file_batch_num = 0, files = [],
                refused = 0, calls = [], printed = [], aborted = None\<rparr>;
          s2 = process_all disk skip_chunk
                 (\<lambda>s. Progress pod_id (processed s) n_total (file_batch_num s)) service n_total s0
      in if aborted s2 \<noteq> None then s2
         else s2\<lparr>printed := printed s2 @ [Done pod_id (processed s2) (file_batch_num s2)]\<rparr>)"

text \<open>\<^verbatim>\<open>process_chunks\<close> of embed_via_http.py.\<close>

definition process_chunks_http :: "disk \<Rightarrow> service \<Rightarrow> dict list \<Rightarrow> hstate" where
  "process_chunks_http disk service chunks =
     (let n_total = length chunks;
          s0 = \<lparr>store = chunks, processed = 0, file_batch = [], file_batch_num = 0, files = [],
                refused = 0, calls = [], printed = [], aborted = None, failed = 0\<rparr>;
          s2 = process_all disk skip_chunk_http (\<lambda>s. ProgressHttp (processed s) n_total)
                 service n_total s0
      in if aborted s2 \<noteq> None then s2
         else s2\<lparr>printed := printed s2 @ [DoneHttp (processed s2) (file_batch_num s2)]
                              @ (if failed s2 > 0 then [Warning (failed s2)] else [])\<rparr>)"

text \<open>Every chunk written or waiting to be written, in order.\<close>

definition written :: "'a pstate_scheme \<Rightarrow> dict list" where
  "written s = concat (map snd (files s)) @ map (\<lambda>chunk. store s ! chunk) (file_batch s)"

text \<open>A chunk with the two fields every record of the store has.\<close>

definition example_chunk :: "string \<Rightarrow> string \<Rightarrow> dict" where
  "example_chunk cid txt = [(''chunk_id'', JStr cid), (''text'', JStr txt)]"

text \<open>The part of a window still to be read once \<open>chunks\<close> have been collected.\<close>

definition window_left :: "int option \<Rightarrow> 'b list \<Rightarrow> 'a list \<Rightarrow> 'a list" where
  "window_left count chunks ls =
     (case count of None \<Rightarrow> ls | Some c \<Rightarrow> take (nat (c - int (length chunks))) ls)"

text \<open>
  What holds of the counters between two chunks, whatever the disk does: the files written
  carry their positions as sequence numbers, and the two counters agree with what has
  been written and what waits in \<^verbatim>\<open>file_batch\<close>.
\<close>

definition acc_inv :: "'a pstate_scheme \<Rightarrow> bool" where
  "acc_inv s =
     (map fst (files s) = [0..<length (files s)]
      \<and> file_batch_num s = length (files s)
      \<and> processed s = length (written s))"

text \<open>
  What holds of the sizes as long as no write has raised: the file batch is not full and
  every file written is full.
\<close>

definition full_files :: "'a pstate_scheme \<Rightarrow> bool" where
  "full_files s =
     (length (file_batch s) < FILE_BATCH_SIZE
      \<and> list_all (\<lambda>f. length (snd f) = FILE_BATCH_SIZE) (files s))"

text \<open>
  How a step \<open>s \<mapsto> t\<close> of the processor moves these: writes that raised are never
  forgotten, the counters stay in agreement, and the sizes stay as they should as long
  as no write has raised.
\<close>

definition grows :: "'a pstate_scheme \<Rightarrow> 'a pstate_scheme \<Rightarrow> bool" where
  "grows s t =
     (refused s \<le> refused t
      \<and> (acc_inv s \<longrightarrow> acc_inv t)
      \<and> (refused t = 0 \<and> full_files s \<longrightarrow> full_files t))"

text \<open>Embedding services for the examples: one that answers every call, one that never
  answers, one that refuses every call of more than one text.\<close>

definition echo_service :: service where
  "echo_service k texts = Inr (map (\<lambda>t. JArr [t]) texts)"

definition down_service :: service where
  "down_service k texts = Inl (RequestError ''timeout'')"

definition group_fails_service :: service where
  "group_fails_service k texts =
     (if length texts > 1 then Inl (RequestError ''500'') else Inr (map (\<lambda>t. JArr [t]) texts))"

text \<open>Disks for the examples: one that takes every write, one that refuses the first.\<close>

definition good_disk :: disk where
  "good_disk k = None"

definition first_write_fails :: disk where
  "first_write_fails k = (if k = 0 then Some (OSError ''disk full'') else None)"

text \<open>
  The sizes of a state in a run over a hundred chunks whose text is \<^verbatim>\<open>x\<close>: the length of
  \<^verbatim>\<open>file_batch\<close>, the number and length of each file written, and the counters.
\<close>

definition example_shape ::
  "'a pstate_scheme \<Rightarrow> nat \<Rightarrow> (nat \<times> nat) list \<Rightarrow> nat \<Rightarrow> nat \<Rightarrow> nat \<Rightarrow> bool"
where
  "example_shape s fb fl num r p =
     (aborted s = None
      \<and> length (store s) = 100
      \<and> list_all (\<lambda>d. getitem d ''text'' = Inr (JStr ''x'')) (store s)
      \<and> length (file_batch s) = fb
      \<and> map (\<lambda>f. (fst f, length (snd f))) (files s) = fl
      \<and> file_batch_num s = num
      \<and> refused s = r
      \<and> processed s = p)"

section \<open>Partition planner: proofs\<close>

lemma contiguous_le: "contiguous a ws b \<Longrightarrow> a \<le> b"
proof (induction ws arbitrary: a)
  case Nil
  then show ?case by simp
next
  case (Cons w ws)
  then have "a + snd w \<le> b" and "0 \<le> snd w" by simp_all
  then show ?case by linarith
qed

lemma contiguous_cover:
  "contiguous a ws b \<Longrightarrow> length (filter (covers i) ws) = (if a \<le> i \<and> i < b then 1 else 0)"
proof (induction ws arbitrary: a)
  case Nil
  then show ?case by simp
next
  case (Cons w ws)
  from Cons.prems have w: "fst w = a" "0 \<le> snd w" and rest: "contiguous (a + snd w) ws b"
    by simp_all
  from contiguous_le [OF rest] have le: "a + snd w \<le> b" .
  from Cons.IH [OF rest] w le show ?case
    by (auto simp: covers_def)
qed

lemma plan_length: "1 \<le> n \<Longrightarrow> length (plan tot n) = nat n"
  by (simp add: plan_def Let_def)

lemma plan_nth:
  "0 \<le> p \<Longrightarrow> p < n \<Longrightarrow> plan tot n ! nat p =
     (p * (tot div n), if p < n - 1 then tot div n else tot - p * (tot div n))"
  by (simp add: plan_def Let_def)

lemma per_pod_bounds:
  fixes tot n :: int
  assumes "0 \<le> tot" "1 \<le> n"
  shows "0 \<le> tot div n" and "(n - 1) * (tot div n) \<le> tot"
proof -
  show q: "0 \<le> tot div n" using assms by (simp add: pos_imp_zdiv_nonneg_iff)
  have "n * (tot div n) + tot mod n = tot" by simp
  moreover have "0 \<le> tot mod n" using assms by simp
  ultimately have nq: "n * (tot div n) \<le> tot" by linarith
  have "(n - 1) * (tot div n) = n * (tot div n) - tot div n" by (simp add: algebra_simps)
  with nq q show "(n - 1) * (tot div n) \<le> tot" by linarith
qed

lemma plan_tail_contiguous:
  assumes "0 \<le> tot" "1 \<le> n"
  shows "0 \<le> p \<Longrightarrow> p \<le> n - 1 \<Longrightarrow>
    contiguous (p * (tot div n))
      (map (\<lambda>p. (p * (tot div n), if p < n - 1 then tot div n else tot - p * (tot div n)))
         [p..n - 1]) tot"
proof (induction "nat (n - 1 - p)" arbitrary: p)
  case 0
  then have p: "p = n - 1" by simp
  then have "[p..n - 1] = [n - 1]" by simp
  with p per_pod_bounds(2) [OF assms] show ?case by simp
next
  case (Suc k)
  then have lt: "p < n - 1" and k: "k = nat (n - 1 - (p + 1))" by linarith+
  have split: "[p..n - 1] = p # [p + 1..n - 1]" using lt by (simp add: upto_rec1)
  have "contiguous ((p + 1) * (tot div n))
      (map (\<lambda>p. (p * (tot div n), if p < n - 1 then tot div n else tot - p * (tot div n)))
         [p + 1..n - 1]) tot"
    using Suc.hyps(1) [OF k] Suc.prems lt by simp
  moreover have "(p + 1) * (tot div n) = p * (tot div n) + tot div n" by (simp add: algebra_simps)
  ultimately show ?case using lt per_pod_bounds(1) [OF assms] split by simp
qed

lemma plan_contiguous:
  assumes "0 \<le> tot" "1 \<le> n"
  shows "contiguous 0 (plan tot n) tot"
  using plan_tail_contiguous [OF assms, of 0] assms by (simp add: plan_def Let_def)

text \<open>
  C2. For \<open>tot \<ge> 0\<close> chunks and \<open>n \<ge> 1\<close> workers the plan has one window per worker;
  worker \<open>p\<close> of the first \<open>n - 1\<close> gets offset \<open>p * (tot div n)\<close> and count \<open>tot div n\<close>;
  the last gets count \<open>tot - (tot div n) * (n - 1)\<close>; the windows follow one another
  from position 0 to position \<open>tot\<close> with no gap and no overlap, so each position
  \<open>0 \<le> i < tot\<close> lies in exactly one window and no other position lies in any.
\<close>

theorem plan_partition:
  assumes "0 \<le> tot" and "1 \<le> n"
  shows "length (plan tot n) = nat n
       \<and> (\<forall>p. 0 \<le> p \<and> p < n - 1 \<longrightarrow> plan tot n ! nat p = (p * (tot div n), tot div n))
       \<and> plan tot n ! nat (n - 1) = ((n - 1) * (tot div n), tot - (tot div n) * (n - 1))
       \<and> contiguous 0 (plan tot n) tot
       \<and> (\<forall>i. length (filter (covers i) (plan tot n)) = (if 0 \<le> i \<and> i < tot then 1 else 0))"
proof -
  have "\<forall>p. 0 \<le> p \<and> p < n - 1 \<longrightarrow> plan tot n ! nat p = (p * (tot div n), tot div n)"
    by (simp add: plan_nth)
  moreover have "plan tot n ! nat (n - 1) = ((n - 1) * (tot div n), tot - (tot div n) * (n - 1))"
    using assms plan_nth [of "n - 1" n tot] by (simp add: mult.commute)
  moreover note plan_length [OF assms(2), of tot] plan_contiguous [OF assms]
  moreover have "\<forall>i. length (filter (covers i) (plan tot n)) = (if 0 \<le> i \<and> i < tot then 1 else 0)"
    using contiguous_cover [OF plan_contiguous [OF assms]] by blast
  ultimately show ?thesis by blast
qed

theorem plan_partition_witness:
  "(0::int) \<le> 10 \<and> (1::int) \<le> 3
     \<and> plan 10 3 = [(0, 3), (3, 3), (6, 4)]
     \<and> plan 10 3 ! nat 1 = (1 * (10 div 3), 10 div 3)
     \<and> contiguous 0 (plan 10 3) 10
     \<and> length (filter (covers 7) (plan 10 3)) = 1
     \<and> length (filter (covers 10) (plan 10 3)) = 0"
proof -
  have p: "plan 10 3 = [(0, 3), (3, 3), (6, 4)]"
    by (simp add: plan_def Let_def upto_rec1)
  have h: "(0::int) \<le> 10" "(1::int) \<le> 3" by simp_all
  from plan_partition [OF h] p show ?thesis by (simp add: covers_def)
qed

section \<open>Chunk source: proofs\<close>

lemma load_chunks_loop_parse:
  "load_chunks_loop loads offset count i lines chunks =
     (case parse_all loads (window_left count chunks (drop (nat (offset - int i)) lines)) of
        Inl e \<Rightarrow> Inl e | Inr cs \<Rightarrow> Inr (chunks @ cs))"
proof (induction lines arbitrary: i chunks)
  case Nil
  then show ?case by (simp add: window_left_def split: option.splits)
next
  case (Cons line rest)
  show ?case
  proof (cases "int i < offset")
    case True
    then have "nat (offset - int i) = Suc (nat (offset - int (Suc i)))" by simp
    with True Cons.IH [of "Suc i" chunks] show ?thesis by simp
  next
    case False
    then have z: "nat (offset - int i) = 0" "nat (offset - int (Suc i)) = 0" by simp_all
    show ?thesis
    proof (cases "count_reached count chunks")
      case True
      then show ?thesis using False z
        by (auto simp: count_reached_def window_left_def split: option.splits)
    next
      case nr: False
      show ?thesis
      proof (cases "loads line")
        case (Inl e)
        with False nr z show ?thesis
          by (auto simp: count_reached_def window_left_def take_Cons' split: option.splits)
      next
        case (Inr chunk)
        have "window_left count chunks (line # rest) = line # window_left count (chunks @ [chunk]) rest"
        proof (cases count)
          case None
          then show ?thesis by (simp add: window_left_def)
        next
          case (Some c)
          with nr have "nat (c - int (length chunks)) = Suc (nat (c - int (length (chunks @ [chunk]))))"
            by (simp add: count_reached_def)
          with Some show ?thesis by (simp add: window_left_def)
        qed
        with False nr z Inr Cons.IH [of "Suc i" "chunks @ [chunk]"] show ?thesis
          by (simp split: sum.splits)
      qed
    qed
  qed
qed

lemma load_chunks_parse:
  "load_chunks loads lines offset count = parse_all loads (window lines offset count)"
proof -
  have "window_left count ([]::json list) (drop (nat offset) lines) = window lines offset count"
    by (simp add: window_left_def window_def split: option.splits)
  then show ?thesis
    using load_chunks_loop_parse [of loads offset count 0 lines "[]"]
    by (simp add: load_chunks_def split: sum.splits)
qed

lemma load_indexable_loop_all_usable:
  "0 < offset \<Longrightarrow> \<forall>l\<in>set lines. \<exists>c. loads l = Inr c \<and> usable c
     \<Longrightarrow> load_indexable_loop loads offset count lines [] 0 = Inr ([], 0)"
proof (induction lines)
  case Nil
  then show ?case by simp
next
  case (Cons line rest)
  then obtain c where c: "loads line = Inr c" "usable c" by auto
  then obtain flag where flag: "get_default c ''is_indexable'' (JBool True) = Inr flag" "truthy flag"
    by (auto simp: usable_def split: sum.splits)
  from Cons have "load_indexable_loop loads offset count rest [] 0 = Inr ([], 0)" by simp
  with c flag Cons.prems(1) show ?case by simp
qed

text \<open>
  C1. The filtered load is to return the usable records at filtered positions
  \<open>offset .. offset + count - 1\<close>. At three usable records with offset 1 and no count,
  \<^verbatim>\<open>load_indexable_chunks\<close> returns no record at all, where the window over the filtered
  sequence holds the second and the third: the test \<^verbatim>\<open>len(chunks) + skipped < offset\<close>
  only moves on records that are not usable.
\<close>

theorem load_indexable_chunks_offset:
  "load_indexable_chunks (\<lambda>l. l)
       [Inr (JObj (example_chunk ''a'' ''x'')), Inr (JObj (example_chunk ''b'' ''y'')),
        Inr (JObj (example_chunk ''c'' ''z''))] 1 None
     = Inr ([], 0)
   \<and> spec_filtered_load
       [JObj (example_chunk ''a'' ''x''), JObj (example_chunk ''b'' ''y''),
        JObj (example_chunk ''c'' ''z'')] 1 None
     = [JObj (example_chunk ''b'' ''y''), JObj (example_chunk ''c'' ''z'')]"
  by (simp add: load_indexable_chunks_def spec_filtered_load_def window_def usable_def
        example_chunk_def)

lemma parse_all_first_error:
  "\<forall>x\<in>set pre. \<not> isl (loads x) \<Longrightarrow> loads l = Inl e \<Longrightarrow> parse_all loads (pre @ l # post) = Inl e"
  by (induction pre) (auto split: sum.splits)

lemma parse_all_values:
  "\<forall>x\<in>set ls. \<not> isl (loads x) \<Longrightarrow> parse_all loads ls = Inr (map (\<lambda>x. projr (loads x)) ls)"
  by (induction ls) (auto split: sum.splits)

lemma record_error_None:
  assumes "record_error loads x = None"
  shows "\<exists>v flag. loads x = Inr v \<and> get_default v ''is_indexable'' (JBool True) = Inr flag
       \<and> usable v = truthy flag"
proof -
  from assms obtain v where v: "loads x = Inr v"
    by (cases "loads x") (simp_all add: record_error_def)
  with assms obtain flag where f: "get_default v ''is_indexable'' (JBool True) = Inr flag"
    by (cases "get_default v ''is_indexable'' (JBool True)") (simp_all add: record_error_def)
  then have "usable v = truthy flag" by (simp add: usable_def)
  with v f show ?thesis by blast
qed

lemma record_error_Some:
  "record_error loads l = Some e \<Longrightarrow>
     load_indexable_loop loads offset count (l # post) chunks skipped = Inl e
     \<and> load_indexable_http_loop loads (l # post) chunks skipped = Inl e"
  by (auto simp: record_error_def split: sum.splits)

lemma load_indexable_http_loop_first_error:
  "\<forall>x\<in>set pre. record_error loads x = None \<Longrightarrow> record_error loads l = Some e \<Longrightarrow>
     load_indexable_http_loop loads (pre @ l # post) chunks skipped = Inl e"
proof (induction pre arbitrary: chunks skipped)
  case Nil
  then show ?case using record_error_Some [of loads l e] by simp
next
  case (Cons y ys)
  from Cons.prems record_error_None [of loads y]
  obtain v flag where v: "loads y = Inr v" "get_default v ''is_indexable'' (JBool True) = Inr flag"
    by auto
  from Cons v show ?case by simp
qed

lemma load_indexable_http_loop_total:
  "\<forall>x\<in>set ls. record_error loads x = None \<Longrightarrow>
     \<not> isl (load_indexable_http_loop loads ls chunks skipped)"
proof (induction ls arbitrary: chunks skipped)
  case Nil
  then show ?case by simp
next
  case (Cons y ys)
  from Cons.prems record_error_None [of loads y]
  obtain v flag where v: "loads y = Inr v" "get_default v ''is_indexable'' (JBool True) = Inr flag"
    by auto
  from Cons v show ?case by simp
qed

lemma load_indexable_loop_total:
  "\<forall>x\<in>set ls. record_error loads x = None \<Longrightarrow>
     \<not> isl (load_indexable_loop loads offset count ls chunks skipped)"
proof (induction ls arbitrary: chunks skipped)
  case Nil
  then show ?case by simp
next
  case (Cons y ys)
  from Cons.prems record_error_None [of loads y]
  obtain v flag where v: "loads y = Inr v" "get_default v ''is_indexable'' (JBool True) = Inr flag"
    by auto
  from Cons v show ?case by simp
qed

lemma split_Cons:
  "(\<exists>p1 x p2. y # ys = p1 @ x # p2 \<and> P p1 x p2)
     \<longleftrightarrow> P [] y ys \<or> (\<exists>p1 x p2. ys = p1 @ x # p2 \<and> P (y # p1) x p2)"
  (is "?L \<longleftrightarrow> ?R")
proof
  assume ?L
  then obtain p1 x p2 where s: "y # ys = p1 @ x # p2" and p: "P p1 x p2" by blast
  show ?R
  proof (cases p1)
    case Nil
    with s p show ?thesis by simp
  next
    case (Cons a as)
    with s p show ?thesis by auto
  qed
next
  assume ?R
  then show ?L
  proof
    assume "P [] y ys"
    then have "y # ys = [] @ y # ys \<and> P [] y ys" by simp
    then show ?L by blast
  next
    assume "\<exists>p1 x p2. ys = p1 @ x # p2 \<and> P (y # p1) x p2"
    then obtain p1 x p2 where "ys = p1 @ x # p2" "P (y # p1) x p2" by blast
    then have "y # ys = (y # p1) @ x # p2 \<and> P (y # p1) x p2" by simp
    then show ?L by blast
  qed
qed

lemma split_Cons6:
  "(\<exists>p1 x p2 a b c. y # ys = p1 @ x # p2 \<and> P p1 x p2 a b c)
     \<longleftrightarrow> (\<exists>a b c. P [] y ys a b c)
         \<or> (\<exists>p1 x p2 a b c. ys = p1 @ x # p2 \<and> P (y # p1) x p2 a b c)"
  using split_Cons [where P = "\<lambda>p1 x p2. \<exists>a b c. P p1 x p2 a b c" and y = y and ys = ys]
  by simp

lemma load_indexable_loop_first_error:
  assumes "record_error loads l = Some e"
  shows "\<forall>x\<in>set pre. record_error loads x = None \<Longrightarrow>
     load_indexable_loop loads offset count (pre @ l # post) chunks skipped =
       (if \<exists>p1 x p2 cs sk v. pre = p1 @ x # p2
              \<and> load_indexable_loop loads offset count p1 chunks skipped = Inr (cs, sk)
              \<and> loads x = Inr v \<and> usable v
              \<and> offset \<le> int (length cs) + int sk \<and> count_reached count cs
        then load_indexable_loop loads offset count pre chunks skipped
        else Inl e)"
proof (induction pre arbitrary: chunks skipped)
  case Nil
  then show ?case using record_error_Some [OF assms] by simp
next
  case (Cons y ys)
  from Cons.prems record_error_None [of loads y]
  obtain v flag where v: "loads y = Inr v" "get_default v ''is_indexable'' (JBool True) = Inr flag"
    "usable v = truthy flag"
    by auto
  from Cons.prems have ys: "\<forall>x\<in>set ys. record_error loads x = None" by simp
  let ?B = "\<lambda>pre chunks skipped. \<exists>p1 x p2 cs sk v. pre = p1 @ x # p2
              \<and> load_indexable_loop loads offset count p1 chunks skipped = Inr (cs, sk)
              \<and> loads x = Inr v \<and> usable v
              \<and> offset \<le> int (length cs) + int sk \<and> count_reached count cs"
  have B: "?B (y # ys) chunks skipped \<longleftrightarrow>
      (usable v \<and> offset \<le> int (length chunks) + int skipped \<and> count_reached count chunks)
      \<or> (\<exists>p1 x p2 cs sk v. ys = p1 @ x # p2
              \<and> load_indexable_loop loads offset count (y # p1) chunks skipped = Inr (cs, sk)
              \<and> loads x = Inr v \<and> usable v
              \<and> offset \<le> int (length cs) + int sk \<and> count_reached count cs)"
    using v(1) split_Cons6 [where P = "\<lambda>p1 x p2 cs sk v.
              load_indexable_loop loads offset count p1 chunks skipped = Inr (cs, sk)
              \<and> loads x = Inr v \<and> usable v
              \<and> offset \<le> int (length cs) + int sk \<and> count_reached count cs"
          and y = y and ys = ys]
    by simp
  consider (skip) "\<not> truthy flag"
    | (before) "truthy flag" "int (length chunks) + int skipped < offset"
    | (stop) "truthy flag" "\<not> int (length chunks) + int skipped < offset"
        "count_reached count chunks"
    | (take) "truthy flag" "\<not> int (length chunks) + int skipped < offset"
        "\<not> count_reached count chunks"
    by blast
  then show ?case
  proof cases
    case skip
    then have step: "\<And>rest. load_indexable_loop loads offset count (y # rest) chunks skipped
        = load_indexable_loop loads offset count rest chunks (skipped + 1)"
      using v by simp
    have eq: "?B (y # ys) chunks skipped \<longleftrightarrow> ?B ys chunks (skipped + 1)"
      unfolding B step using skip v(3) by simp
    show ?thesis
      unfolding append_Cons eq step by (rule Cons.IH [OF ys])
  next
    case before
    then have step: "\<And>rest. load_indexable_loop loads offset count (y # rest) chunks skipped
        = load_indexable_loop loads offset count rest chunks skipped"
      using v by simp
    have eq: "?B (y # ys) chunks skipped \<longleftrightarrow> ?B ys chunks skipped"
      unfolding B step using before by simp
    show ?thesis
      unfolding append_Cons eq step by (rule Cons.IH [OF ys])
  next
    case stop
    then have step: "\<And>rest. load_indexable_loop loads offset count (y # rest) chunks skipped
        = Inr (chunks, skipped)"
      using v by simp
    have b: "?B (y # ys) chunks skipped"
      unfolding B using stop v(3) by simp
    show ?thesis
      unfolding append_Cons step using b by (simp only: if_True)
  next
    case take
    then have step: "\<And>rest. load_indexable_loop loads offset count (y # rest) chunks skipped
        = load_indexable_loop loads offset count rest (chunks @ [v]) skipped"
      using v by simp
    have eq: "?B (y # ys) chunks skipped \<longleftrightarrow> ?B ys (chunks @ [v]) skipped"
      unfolding B step using take by simp
    show ?thesis
      unfolding append_Cons eq step by (rule Cons.IH [OF ys])
  qed
qed

text \<open>
  C8, as stated, fails in two ways. A line that does not parse does not abort the load when
  the loop never parses it: \<^verbatim>\<open>load_chunks\<close> passes over the lines before the offset
  without parsing them, and both loaders leave the loop once the count is reached. And a
  line that parses, but not to a record, is taken by \<^verbatim>\<open>load_chunks\<close> as a chunk: it
  returns the number, the null and the empty object of three such lines.
\<close>

theorem load_unparsed_line_counterexample:
  "load_chunks (\<lambda>l. l) [Inl JSONDecodeError, Inr (JObj (example_chunk ''a'' ''x''))] 1 None
     = Inr [JObj (example_chunk ''a'' ''x'')]
   \<and> load_indexable_chunks (\<lambda>l. l)
       [Inr (JObj (example_chunk ''a'' ''x'')), Inr (JObj (example_chunk ''b'' ''y'')),
        Inl JSONDecodeError] 0 (Some 1)
     = Inr ([JObj (example_chunk ''a'' ''x'')], 0)
   \<and> load_chunks (\<lambda>l. l) [Inr (JNum 42), Inr JNull, Inr (JObj [])] 0 None
     = Inr [JNum 42, JNull, JObj []]"
  by (simp add: load_chunks_def load_indexable_chunks_def count_reached_def example_chunk_def)

text \<open>
  C8, amended. A line is malformed for \<^verbatim>\<open>load_chunks\<close> when \<^verbatim>\<open>json.loads\<close> raises on it,
  and for the two \<^verbatim>\<open>load_indexable_chunks\<close> when \<^verbatim>\<open>json.loads\<close> raises on it or
  \<^verbatim>\<open>chunk.get\<close> does, the line holding a value that is no object. A loader fails at the
  first malformed line it reaches, with the exception of that line, and returns no list;
  it never passes over a malformed line it has reached.

  \<^verbatim>\<open>load_chunks\<close> reaches the lines of its window, from the offset and at most count of
  them: it fails with the error of the first of them that does not parse, and when all of
  them parse it returns their values, whatever they are.

  When \<open>l\<close> is the first malformed line of the store, the loader of embed_via_http.py
  fails with the exception of \<open>l\<close>; so does \<^verbatim>\<open>load_indexable_chunks\<close> of
  embed_chunks_v2.py, unless before \<open>l\<close> it has met, the count being reached, a usable
  record with \<^verbatim>\<open>len(chunks) + skipped >= offset\<close>: there it has left the loop, and it
  returns what it returns for the lines before \<open>l\<close>. With no count it never leaves the
  loop. A store with no malformed line makes neither of them fail.
\<close>

theorem load_parse_error_aborts:
  "load_chunks loads lines offset count = parse_all loads (window lines offset count)
   \<and> (window lines offset count = pre @ l # post \<and> (\<forall>x\<in>set pre. \<not> isl (loads x))
        \<and> loads l = Inl e
      \<longrightarrow> load_chunks loads lines offset count = Inl e)
   \<and> ((\<forall>x\<in>set (window lines offset count). \<not> isl (loads x))
      \<longrightarrow> load_chunks loads lines offset count
            = Inr (map (\<lambda>x. projr (loads x)) (window lines offset count)))
   \<and> ((\<forall>x\<in>set pre. record_error loads x = None) \<and> record_error loads l = Some e
      \<longrightarrow> load_indexable_chunks_http loads (pre @ l # post) = Inl e
        \<and> load_indexable_chunks loads (pre @ l # post) offset None = Inl e
        \<and> load_indexable_chunks loads (pre @ l # post) offset count =
            (if \<exists>p1 x p2 cs sk v. pre = p1 @ x # p2
                  \<and> load_indexable_chunks loads p1 offset count = Inr (cs, sk)
                  \<and> loads x = Inr v \<and> usable v
                  \<and> offset \<le> int (length cs) + int sk \<and> count_reached count cs
             then load_indexable_chunks loads pre offset count
             else Inl e))
   \<and> ((\<forall>x\<in>set lines. record_error loads x = None)
      \<longrightarrow> \<not> isl (load_indexable_chunks loads lines offset count)
        \<and> \<not> isl (load_indexable_chunks_http loads lines))"
proof -
  have a: "load_chunks loads lines offset count = parse_all loads (window lines offset count)"
    by (rule load_chunks_parse)
  have b: "load_chunks loads lines offset count = Inl e"
    if "window lines offset count = pre @ l # post" "\<forall>x\<in>set pre. \<not> isl (loads x)"
      "loads l = Inl e"
    using that parse_all_first_error [of pre loads l e post] by (simp add: a)
  have c: "load_chunks loads lines offset count
            = Inr (map (\<lambda>x. projr (loads x)) (window lines offset count))"
    if "\<forall>x\<in>set (window lines offset count). \<not> isl (loads x)"
    using that parse_all_values [of "window lines offset count" loads] by (simp add: a)
  have d: "load_indexable_chunks_http loads (pre @ l # post) = Inl e
        \<and> load_indexable_chunks loads (pre @ l # post) offset None = Inl e
        \<and> load_indexable_chunks loads (pre @ l # post) offset count =
            (if \<exists>p1 x p2 cs sk v. pre = p1 @ x # p2
                  \<and> load_indexable_chunks loads p1 offset count = Inr (cs, sk)
                  \<and> loads x = Inr v \<and> usable v
                  \<and> offset \<le> int (length cs) + int sk \<and> count_reached count cs
             then load_indexable_chunks loads pre offset count
             else Inl e)"
    if pre: "\<forall>x\<in>set pre. record_error loads x = None" and l: "record_error loads l = Some e"
  proof -
    have "load_indexable_chunks_http loads (pre @ l # post) = Inl e"
      unfolding load_indexable_chunks_http_def
      by (rule load_indexable_http_loop_first_error [OF pre l])
    moreover have "load_indexable_chunks loads (pre @ l # post) offset None = Inl e"
      unfolding load_indexable_chunks_def
      using load_indexable_loop_first_error [OF l pre, of offset None post "[]" 0]
      by (simp add: count_reached_def)
    moreover note load_indexable_loop_first_error [OF l pre, of offset count post "[]" 0]
    ultimately show ?thesis unfolding load_indexable_chunks_def by blast
  qed
  have f: "\<not> isl (load_indexable_chunks loads lines offset count)
        \<and> \<not> isl (load_indexable_chunks_http loads lines)"
    if "\<forall>x\<in>set lines. record_error loads x = None"
    using that load_indexable_loop_total [of lines loads offset count "[]" 0]
      load_indexable_http_loop_total [of lines loads "[]" 0]
    by (simp add: load_indexable_chunks_def load_indexable_chunks_http_def)
  from a b c d f show ?thesis by blast
qed

theorem load_parse_error_aborts_witness:
  "record_error (\<lambda>l. l) (Inr (JObj (example_chunk ''a'' ''x''))) = None
   \<and> record_error (\<lambda>l. l) (Inr (JObj (example_chunk ''b'' ''y''))) = None
   \<and> record_error (\<lambda>l. l) (Inl JSONDecodeError) = Some JSONDecodeError
   \<and> record_error (\<lambda>l. l) (Inr (JNum 42)) = Some AttributeError
   \<and> window [Inr (JObj (example_chunk ''a'' ''x'')), Inl JSONDecodeError, Inr JNull] 0 None
       = [Inr (JObj (example_chunk ''a'' ''x''))] @ Inl JSONDecodeError # [Inr JNull]
   \<and> load_chunks (\<lambda>l. l)
       [Inr (JObj (example_chunk ''a'' ''x'')), Inl JSONDecodeError, Inr JNull] 0 None
       = Inl JSONDecodeError
   \<and> load_indexable_chunks_http (\<lambda>l. l)
       [Inr (JObj (example_chunk ''a'' ''x'')), Inl JSONDecodeError, Inr JNull]
       = Inl JSONDecodeError
   \<and> load_indexable_chunks (\<lambda>l. l)
       [Inr (JObj (example_chunk ''a'' ''x'')), Inl JSONDecodeError, Inr JNull] 0 (Some 1)
       = Inl JSONDecodeError
   \<and> load_indexable_chunks (\<lambda>l. l)
       [Inr (JObj (example_chunk ''a'' ''x'')), Inr (JObj (example_chunk ''b'' ''y'')),
        Inr (JNum 42)] 0 (Some 1)
       = load_indexable_chunks (\<lambda>l. l)
           [Inr (JObj (example_chunk ''a'' ''x'')), Inr (JObj (example_chunk ''b'' ''y''))]
           0 (Some 1)
   \<and> load_indexable_chunks (\<lambda>l. l)
       [Inr (JObj (example_chunk ''a'' ''x'')), Inr (JObj (example_chunk ''b'' ''y'')),
        Inr (JNum 42)] 0 None
       = Inl AttributeError
   \<and> \<not> isl (load_indexable_chunks (\<lambda>l. l)
       [Inr (JObj (example_chunk ''a'' ''x'')), Inr (JObj (example_chunk ''b'' ''y''))] 0 None)"
  using load_parse_error_aborts [where loads = "\<lambda>l. l"
      and lines = "[Inr (JObj (example_chunk ''a'' ''x'')), Inl JSONDecodeError, Inr JNull]"
      and offset = 0 and count = None
      and pre = "[Inr (JObj (example_chunk ''a'' ''x''))]" and l = "Inl JSONDecodeError"
      and e = JSONDecodeError and post = "[Inr JNull]"]
    load_parse_error_aborts [where loads = "\<lambda>l. l"
      and lines = "[Inr (JObj (example_chunk ''a'' ''x'')), Inr (JObj (example_chunk ''b'' ''y''))]"
      and offset = 0 and count = "Some 1"
      and pre = "[Inr (JObj (example_chunk ''a'' ''x'')), Inr (JObj (example_chunk ''b'' ''y''))]"
      and l = "Inr (JNum 42)" and e = AttributeError and post = "[]"]
  by (simp add: record_error_def window_def load_chunks_def load_indexable_chunks_def
      load_indexable_chunks_http_def count_reached_def example_chunk_def)

section \<open>Batch processor: the accumulator\<close>

lemma written_simps [simp]:
  "written (s\<lparr>calls := c\<rparr>) = written s"
  "written (s\<lparr>printed := p\<rparr>) = written s"
  "written (s\<lparr>aborted := a\<rparr>) = written s"
  "written (s\<lparr>refused := r\<rparr>) = written s"
  by (simp_all add: written_def)

lemma acc_inv_simps [simp]:
  "acc_inv (s\<lparr>calls := c\<rparr>) = acc_inv s"
  "acc_inv (s\<lparr>printed := p\<rparr>) = acc_inv s"
  "acc_inv (s\<lparr>aborted := a\<rparr>) = acc_inv s"
  "acc_inv (s\<lparr>refused := r\<rparr>) = acc_inv s"
  by (simp_all add: acc_inv_def)

lemma full_files_simps [simp]:
  "full_files (s\<lparr>calls := c\<rparr>) = full_files s"
  "full_files (s\<lparr>printed := p\<rparr>) = full_files s"
  "full_files (s\<lparr>aborted := a\<rparr>) = full_files s"
  "full_files (s\<lparr>refused := r\<rparr>) = full_files s"
  by (simp_all add: full_files_def)

lemma grows_refl [simp]: "grows s s"
  by (simp add: grows_def)

lemma grows_trans: "grows s t \<Longrightarrow> grows t u \<Longrightarrow> grows s u"
  unfolding grows_def by (metis le_zero_eq order_trans)

lemma grows_simps [simp]:
  "grows s (t\<lparr>calls := c\<rparr>) = grows s t"
  "grows s (t\<lparr>printed := p\<rparr>) = grows s t"
  "grows s (t\<lparr>aborted := a\<rparr>) = grows s t"
  "grows (s\<lparr>calls := c\<rparr>) t = grows s t"
  "grows (s\<lparr>printed := p\<rparr>) t = grows s t"
  "grows (s\<lparr>aborted := a\<rparr>) t = grows s t"
  by (simp_all add: grows_def)

lemma append_embedded_frame [simp]:
  "calls (snd (append_embedded disk chunk emb s)) = calls s"
  "printed (snd (append_embedded disk chunk emb s)) = printed s"
  "aborted (snd (append_embedded disk chunk emb s)) = aborted s"
  "pstate.more (snd (append_embedded disk chunk emb s)) = pstate.more s"
  "length (store (snd (append_embedded disk chunk emb s))) = length (store s)"
  by (simp_all add: append_embedded_def save_batch_def Let_def split: option.splits)

lemma append_embedded_processed [simp]:
  "processed (snd (append_embedded disk chunk emb s)) = Suc (processed s)"
  by (simp add: append_embedded_def save_batch_def Let_def split: option.splits)

lemma append_embedded_grows: "grows s (snd (append_embedded disk chunk emb s))"
proof -
  have "refused s \<le> refused (snd (append_embedded disk chunk emb s))"
    by (simp add: append_embedded_def save_batch_def Let_def split: option.splits)
  moreover have "acc_inv (snd (append_embedded disk chunk emb s))" if "acc_inv s"
    using that
    by (simp add: append_embedded_def save_batch_def Let_def acc_inv_def written_def
        split: option.splits)
  moreover have "full_files (snd (append_embedded disk chunk emb s))"
    if "refused (snd (append_embedded disk chunk emb s)) = 0" "full_files s"
  proof (cases "Suc (length (file_batch s)) \<ge> FILE_BATCH_SIZE")
    case True
    with that(2) have full: "Suc (length (file_batch s)) = FILE_BATCH_SIZE"
      by (simp add: full_files_def)
    with that show ?thesis
      by (simp add: append_embedded_def save_batch_def Let_def full_files_def
          FILE_BATCH_SIZE_def split: option.splits)
  next
    case False
    with that show ?thesis
      by (simp add: append_embedded_def Let_def full_files_def)
  qed
  ultimately show ?thesis by (simp add: grows_def)
qed

lemma embed_group_frame [simp]:
  "calls (snd (embed_group disk ps s)) = calls s"
  "printed (snd (embed_group disk ps s)) = printed s"
  "aborted (snd (embed_group disk ps s)) = aborted s"
  "pstate.more (snd (embed_group disk ps s)) = pstate.more s"
  "length (store (snd (embed_group disk ps s))) = length (store s)"
proof -
  have "calls (snd (embed_group disk ps s)) = calls s
      \<and> printed (snd (embed_group disk ps s)) = printed s
      \<and> aborted (snd (embed_group disk ps s)) = aborted s
      \<and> pstate.more (snd (embed_group disk ps s)) = pstate.more s
      \<and> length (store (snd (embed_group disk ps s))) = length (store s)"
  proof (induction ps arbitrary: s)
    case Nil
    then show ?case by simp
  next
    case (Cons p ps)
    obtain chunk emb where p: "p = (chunk, emb)" by (cases p)
    obtain r s1 where a: "append_embedded disk chunk emb s = (r, s1)"
      by (cases "append_embedded disk chunk emb s")
    from append_embedded_frame [of disk chunk emb s] a
    have f: "calls s1 = calls s" "printed s1 = printed s" "aborted s1 = aborted s"
      "pstate.more s1 = pstate.more s" "length (store s1) = length (store s)" by simp_all
    show ?case
    proof (cases r)
      case None
      with p a f Cons.IH [of s1] show ?thesis by simp
    next
      case (Some e)
      with p a f show ?thesis by simp
    qed
  qed
  then show
    "calls (snd (embed_group disk ps s)) = calls s"
    "printed (snd (embed_group disk ps s)) = printed s"
    "aborted (snd (embed_group disk ps s)) = aborted s"
    "pstate.more (snd (embed_group disk ps s)) = pstate.more s"
    "length (store (snd (embed_group disk ps s))) = length (store s)"
    by simp_all
qed

lemma embed_group_grows: "grows s (snd (embed_group disk ps s))"
proof (induction ps arbitrary: s)
  case Nil
  then show ?case by simp
next
  case (Cons p ps)
  obtain chunk emb where p: "p = (chunk, emb)" by (cases p)
  obtain r s1 where a: "append_embedded disk chunk emb s = (r, s1)"
    by (cases "append_embedded disk chunk emb s")
  from append_embedded_grows [of s disk chunk emb] a have g: "grows s s1" by simp
  show ?case
  proof (cases r)
    case None
    with p a have "snd (embed_group disk (p # ps) s) = snd (embed_group disk ps s1)" by simp
    with grows_trans [OF g Cons.IH [of s1]] show ?thesis by simp
  next
    case (Some e)
    with p a g show ?thesis by simp
  qed
qed

lemma skip_chunk_grows: "grows s (skip_chunk chunk e2 s)"
  by (simp add: skip_chunk_def split: sum.splits)

lemma skip_chunk_http_grows: "grows s (skip_chunk_http chunk e2 s)"
  by (simp add: skip_chunk_http_def grows_def acc_inv_def full_files_def written_def
      split: sum.splits)

lemma get_embeddings_batch_simps [simp]:
  "fst (get_embeddings_batch service texts s) = service (length (calls s)) texts"
  "snd (get_embeddings_batch service texts s) = s\<lparr>calls := calls s @ [texts]\<rparr>"
  by (simp_all add: get_embeddings_batch_def)

lemma slice_subset: "set (slice xs i j) \<subseteq> set xs"
  unfolding slice_def by (meson set_drop_subset set_take_subset subset_trans)

lemma fallback_chunk_grows:
  assumes "\<And>c e t. grows t (on_skip c e t)"
  shows "grows s (fallback_chunk disk on_skip service chunk s)"
proof (cases "aborted s \<noteq> None")
  case True
  then show ?thesis by (simp add: fallback_chunk_def)
next
  case na: False
  show ?thesis
  proof (cases "getitem (store s ! chunk) ''text''")
    case (Inl e2)
    with na assms [of s chunk e2] show ?thesis by (simp add: fallback_chunk_def)
  next
    case (Inr t)
    define s1 where "s1 = s\<lparr>calls := calls s @ [[t]]\<rparr>"
    have g1: "grows s s1" by (simp add: s1_def)
    show ?thesis
    proof (cases "service (length (calls s)) [t]")
      case (Inl e2)
      with na Inr have "fallback_chunk disk on_skip service chunk s = on_skip chunk e2 s1"
        by (simp add: fallback_chunk_def get_embeddings_batch_def s1_def)
      with grows_trans [OF g1 assms [of s1 chunk e2]] show ?thesis by simp
    next
      case r: (Inr embs)
      show ?thesis
      proof (cases embs)
        case Nil
        with na Inr r have "fallback_chunk disk on_skip service chunk s = on_skip chunk IndexError s1"
          by (simp add: fallback_chunk_def get_embeddings_batch_def s1_def)
        with grows_trans [OF g1 assms [of s1 chunk IndexError]] show ?thesis by simp
      next
        case (Cons emb rest)
        obtain w s2 where a: "append_embedded disk chunk emb s1 = (w, s2)"
          by (cases "append_embedded disk chunk emb s1")
        from append_embedded_grows [of s1 disk chunk emb] a have g2: "grows s1 s2" by simp
        show ?thesis
        proof (cases w)
          case None
          with na Inr r Cons a have "fallback_chunk disk on_skip service chunk s = s2"
            by (simp add: fallback_chunk_def get_embeddings_batch_def s1_def)
          with grows_trans [OF g1 g2] show ?thesis by simp
        next
          case (Some e2)
          with na Inr r Cons a have "fallback_chunk disk on_skip service chunk s = on_skip chunk e2 s2"
            by (simp add: fallback_chunk_def get_embeddings_batch_def s1_def)
          with grows_trans [OF grows_trans [OF g1 g2] assms [of s2 chunk e2]] show ?thesis by simp
        qed
      qed
    qed
  qed
qed

lemma fold_grows:
  assumes "\<And>x t. grows t (f x t)"
  shows "grows s (fold f xs s)"
proof (induction xs arbitrary: s)
  case Nil
  then show ?case by simp
next
  case (Cons x xs)
  from grows_trans [OF assms [of s x] Cons.IH [of "f x s"]] show ?case by simp
qed

lemma fallback_group_grows:
  assumes "\<And>c e t. grows t (on_skip c e t)"
  shows "grows s (fallback_group disk on_skip service batch_chunks i e s)"
proof -
  have "grows (s\<lparr>printed := printed s @ [ErrorAtBatch i e]\<rparr>)
          (fold (fallback_chunk disk on_skip service) batch_chunks
             (s\<lparr>printed := printed s @ [ErrorAtBatch i e]\<rparr>))"
    by (rule fold_grows) (rule fallback_chunk_grows [OF assms])
  then show ?thesis by (simp add: fallback_group_def)
qed

lemma process_batch_grows:
  assumes "\<And>c e t. grows t (on_skip c e t)"
  shows "grows s (process_batch disk on_skip progress service chunks i s)"
proof (cases "aborted s \<noteq> None")
  case True
  then show ?thesis by (simp add: process_batch_def)
next
  case na: False
  define batch_chunks where "batch_chunks = slice chunks i (i + EMBED_BATCH_SIZE)"
  show ?thesis
  proof (cases "texts_of (map (\<lambda>chunk. store s ! chunk) batch_chunks)")
    case (Inl e)
    with na show ?thesis by (simp add: process_batch_def batch_chunks_def)
  next
    case (Inr texts)
    define s1 where "s1 = s\<lparr>calls := calls s @ [texts]\<rparr>"
    have g1: "grows s s1" by (simp add: s1_def)
    show ?thesis
    proof (cases "service (length (calls s)) texts")
      case (Inl e)
      with na Inr have "process_batch disk on_skip progress service chunks i s
          = fallback_group disk on_skip service batch_chunks i e s1"
        by (simp add: process_batch_def get_embeddings_batch_def s1_def batch_chunks_def)
      with grows_trans [OF g1 fallback_group_grows [OF assms, where s = s1 and disk = disk and service = service
          and batch_chunks = batch_chunks and i = i and e = e]]
      show ?thesis by simp
    next
      case r: (Inr embeddings)
      obtain w s2 where a: "embed_group disk (zip batch_chunks embeddings) s1 = (w, s2)"
        by (cases "embed_group disk (zip batch_chunks embeddings) s1")
      from embed_group_grows [of s1 disk "zip batch_chunks embeddings"] a
      have g2: "grows s1 s2" by simp
      show ?thesis
      proof (cases w)
        case None
        with na Inr r a have "process_batch disk on_skip progress service chunks i s
            = s2\<lparr>printed := printed s2 @ [progress s2]\<rparr>"
          by (simp add: process_batch_def get_embeddings_batch_def s1_def batch_chunks_def)
        with grows_trans [OF g1 g2] show ?thesis by simp
      next
        case (Some e)
        with na Inr r a have "process_batch disk on_skip progress service chunks i s
            = fallback_group disk on_skip service batch_chunks i e s2"
          by (simp add: process_batch_def get_embeddings_batch_def s1_def batch_chunks_def)
        with grows_trans [OF grows_trans [OF g1 g2]
            fallback_group_grows [OF assms, where s = s2 and disk = disk and service = service
              and batch_chunks = batch_chunks and i = i and e = e]]
        show ?thesis by simp
      qed
    qed
  qed
qed

lemma acc_inv_files_full:
  "full_files s \<Longrightarrow> f \<in> set (files s) \<Longrightarrow> length (snd f) = FILE_BATCH_SIZE"
  by (simp add: full_files_def list_all_iff)

lemma files_bound_full:
  assumes "full_files s"
  shows "(\<forall>f\<in>set (files s). length (snd f) \<le> FILE_BATCH_SIZE)
       \<and> (\<forall>f\<in>set (butlast (files s)). length (snd f) = FILE_BATCH_SIZE)"
  using assms by (metis acc_inv_files_full in_set_butlastD order_refl)

lemma save_remaining_refused: "refused s \<le> refused (save_remaining disk s)"
  by (simp add: save_remaining_def save_batch_def split: option.splits)

lemma save_remaining_bound:
  assumes "full_files s"
  shows "(\<forall>f\<in>set (files (save_remaining disk s)). length (snd f) \<le> FILE_BATCH_SIZE)
       \<and> (\<forall>f\<in>set (butlast (files (save_remaining disk s))). length (snd f) = FILE_BATCH_SIZE)"
proof (cases "file_batch s \<noteq> [] \<and> disk (length (files s) + refused s) = None")
  case False
  then have "files (save_remaining disk s) = files s"
    by (auto simp: save_remaining_def save_batch_def split: option.splits)
  with files_bound_full [OF assms] show ?thesis by simp
next
  case True
  then have "files (save_remaining disk s)
      = files s @ [(file_batch_num s, map (\<lambda>chunk. store s ! chunk) (file_batch s))]"
    by (simp add: save_remaining_def save_batch_def)
  moreover from assms have "length (file_batch s) < FILE_BATCH_SIZE" by (simp add: full_files_def)
  ultimately show ?thesis using assms by (auto simp: acc_inv_files_full)
qed

lemma save_remaining_counts:
  assumes "acc_inv s" and "aborted s = None" and "aborted (save_remaining disk s) = None"
  shows "sum_list (map (\<lambda>f. length (snd f)) (files (save_remaining disk s)))
           = processed (save_remaining disk s)
       \<and> file_batch_num (save_remaining disk s) = length (files (save_remaining disk s))
       \<and> processed (save_remaining disk s) = processed s
       \<and> printed (save_remaining disk s) = printed s"
  using assms
  by (auto simp: acc_inv_def save_remaining_def save_batch_def written_def length_concat comp_def
      split: option.splits if_splits)

lemma process_all_cases:
  assumes "\<And>c e t. grows t (on_skip c e t)" and "acc_inv s0" and "full_files s0"
  obtains s1 where "acc_inv s1" "refused s1 = 0 \<longrightarrow> full_files s1" "aborted s1 \<noteq> None"
      "process_all disk on_skip progress service n_total s0 = s1"
  | s1 where "acc_inv s1" "refused s1 = 0 \<longrightarrow> full_files s1" "aborted s1 = None"
      "process_all disk on_skip progress service n_total s0 = save_remaining disk s1"
proof -
  define s1 where "s1 = fold (process_batch disk on_skip progress service [0..<n_total])
                 (batch_starts n_total) s0"
  have "grows s0 s1"
    unfolding s1_def by (rule fold_grows) (rule process_batch_grows [OF assms(1)])
  with assms(2,3) have inv: "acc_inv s1" "refused s1 = 0 \<longrightarrow> full_files s1"
    by (simp_all add: grows_def)
  show thesis
  proof (cases "aborted s1 = None")
    case True
    with inv that(2) [of s1] show ?thesis
      by (simp add: process_all_def Let_def s1_def [symmetric])
  next
    case False
    with inv that(1) [of s1] show ?thesis
      by (simp add: process_all_def Let_def s1_def [symmetric])
  qed
qed

lemma initial_inv:
  "acc_inv \<lparr>store = chunks, processed = 0, file_batch = [], file_batch_num = 0, files = [],
             refused = 0, calls = [], printed = [], aborted = None, \<dots> = m\<rparr>"
  "full_files \<lparr>store = chunks, processed = 0, file_batch = [], file_batch_num = 0, files = [],
             refused = 0, calls = [], printed = [], aborted = None, \<dots> = m\<rparr>"
  by (simp_all add: acc_inv_def full_files_def written_def FILE_BATCH_SIZE_def)

lemma process_all_files_bound:
  assumes "\<And>c e t. grows t (on_skip c e t)" and "acc_inv s0" and "full_files s0"
    and "refused (process_all disk on_skip progress service n_total s0) = 0"
  shows "(\<forall>f\<in>set (files (process_all disk on_skip progress service n_total s0)).
            length (snd f) \<le> FILE_BATCH_SIZE)
       \<and> (\<forall>f\<in>set (butlast (files (process_all disk on_skip progress service n_total s0))).
            length (snd f) = FILE_BATCH_SIZE)"
proof (rule process_all_cases [OF assms(1-3), where disk = disk and progress = progress
      and service = service and n_total = n_total])
  fix s1
  assume "acc_inv s1" "refused s1 = 0 \<longrightarrow> full_files s1" "aborted s1 \<noteq> None"
    "process_all disk on_skip progress service n_total s0 = s1"
  with assms(4) files_bound_full [of s1] show ?thesis by simp
next
  fix s1
  assume 2: "acc_inv s1" "refused s1 = 0 \<longrightarrow> full_files s1" "aborted s1 = None"
    "process_all disk on_skip progress service n_total s0 = save_remaining disk s1"
  with assms(4) save_remaining_refused [of s1 disk] have "full_files s1" by simp
  with 2 save_remaining_bound [of s1 disk] show ?thesis by simp
qed

lemma process_all_counts:
  assumes "\<And>c e t. grows t (on_skip c e t)" and "acc_inv s0" and "full_files s0"
    and "aborted (process_all disk on_skip progress service n_total s0) = None"
  shows "sum_list (map (\<lambda>f. length (snd f))
            (files (process_all disk on_skip progress service n_total s0)))
           = processed (process_all disk on_skip progress service n_total s0)
       \<and> file_batch_num (process_all disk on_skip progress service n_total s0)
           = length (files (process_all disk on_skip progress service n_total s0))"
proof (rule process_all_cases [OF assms(1-3), where disk = disk and progress = progress
      and service = service and n_total = n_total])
  fix s1
  assume "acc_inv s1" "refused s1 = 0 \<longrightarrow> full_files s1" "aborted s1 \<noteq> None"
    "process_all disk on_skip progress service n_total s0 = s1"
  with assms(4) show ?thesis by simp
next
  fix s1
  assume 2: "acc_inv s1" "refused s1 = 0 \<longrightarrow> full_files s1" "aborted s1 = None"
    "process_all disk on_skip progress service n_total s0 = save_remaining disk s1"
  with assms(4) save_remaining_counts [of s1 disk] show ?thesis by simp
qed

section \<open>Batch processor: a run with a refused write\<close>

lemma getitem_setitem_other: "k \<noteq> k' \<Longrightarrow> getitem (setitem d k v) k' = getitem d k'"
  by (simp add: getitem_def setitem_def update_conv')

lemma list_all_update: "list_all P xs \<Longrightarrow> P y \<Longrightarrow> list_all P (xs[i := y])"
  by (induction xs arbitrary: i) (auto split: nat.splits)

lemma example_shape_simps [simp]:
  "example_shape (s\<lparr>calls := c\<rparr>) fb fl num r p = example_shape s fb fl num r p"
  "example_shape (s\<lparr>printed := pr\<rparr>) fb fl num r p = example_shape s fb fl num r p"
  by (simp_all add: example_shape_def)

lemma append_embedded_shape:
  assumes "example_shape s fb fl num r p" and "chunk < 100"
  shows "Suc fb < FILE_BATCH_SIZE \<Longrightarrow>
           fst (append_embedded disk chunk emb s) = None
           \<and> example_shape (snd (append_embedded disk chunk emb s)) (Suc fb) fl num r (Suc p)"
    and "FILE_BATCH_SIZE \<le> Suc fb \<Longrightarrow> disk (length fl + r) = None \<Longrightarrow>
           fst (append_embedded disk chunk emb s) = None
           \<and> example_shape (snd (append_embedded disk chunk emb s)) 0 (fl @ [(num, Suc fb)])
               (Suc num) r (Suc p)"
    and "FILE_BATCH_SIZE \<le> Suc fb \<Longrightarrow> disk (length fl + r) = Some e \<Longrightarrow>
           fst (append_embedded disk chunk emb s) = Some e
           \<and> example_shape (snd (append_embedded disk chunk emb s)) (Suc fb) fl num (Suc r) (Suc p)"
proof -
  from assms have len: "length (files s) = length fl"
    by (auto simp: example_shape_def)
  from assms have "getitem (store s ! chunk) ''text'' = Inr (JStr ''x'')"
    by (simp add: example_shape_def list_all_length)
  then have "getitem (setitem (store s ! chunk) ''embedding'' emb) ''text'' = Inr (JStr ''x'')"
    by (simp add: getitem_setitem_other)
  with assms have st: "list_all (\<lambda>d. getitem d ''text'' = Inr (JStr ''x''))
      ((store s)[chunk := setitem (store s ! chunk) ''embedding'' emb])"
    by (simp add: example_shape_def list_all_update)
  show "Suc fb < FILE_BATCH_SIZE \<Longrightarrow>
           fst (append_embedded disk chunk emb s) = None
           \<and> example_shape (snd (append_embedded disk chunk emb s)) (Suc fb) fl num r (Suc p)"
    using assms st by (simp add: append_embedded_def Let_def example_shape_def)
  show "FILE_BATCH_SIZE \<le> Suc fb \<Longrightarrow> disk (length fl + r) = None \<Longrightarrow>
           fst (append_embedded disk chunk emb s) = None
           \<and> example_shape (snd (append_embedded disk chunk emb s)) 0 (fl @ [(num, Suc fb)])
               (Suc num) r (Suc p)"
    using assms st len by (simp add: append_embedded_def save_batch_def Let_def example_shape_def)
  show "FILE_BATCH_SIZE \<le> Suc fb \<Longrightarrow> disk (length fl + r) = Some e \<Longrightarrow>
           fst (append_embedded disk chunk emb s) = Some e
           \<and> example_shape (snd (append_embedded disk chunk emb s)) (Suc fb) fl num (Suc r) (Suc p)"
    using assms st len by (simp add: append_embedded_def save_batch_def Let_def example_shape_def)
qed

lemma embed_group_room:
  assumes "\<forall>q\<in>set ps. fst q < 100"
  shows "example_shape s fb fl num r p \<Longrightarrow> fb + length ps < FILE_BATCH_SIZE \<Longrightarrow>
           fst (embed_group disk ps s) = None
           \<and> example_shape (snd (embed_group disk ps s)) (fb + length ps) fl num r (p + length ps)"
  using assms
proof (induction ps arbitrary: s fb p)
  case Nil
  then show ?case by simp
next
  case (Cons q ps)
  obtain chunk emb where q: "q = (chunk, emb)" by (cases q)
  obtain w s1 where a: "append_embedded disk chunk emb s = (w, s1)"
    by (cases "append_embedded disk chunk emb s")
  from Cons.prems q have "chunk < 100" "Suc fb < FILE_BATCH_SIZE" by simp_all
  from append_embedded_shape(1) [OF Cons.prems(1) this(1), of disk emb] this(2) a
  have w: "w = None" and s1: "example_shape s1 (Suc fb) fl num r (Suc p)" by simp_all
  from Cons.prems have "Suc fb + length ps < FILE_BATCH_SIZE" "\<forall>q\<in>set ps. fst q < 100" by simp_all
  from Cons.IH [OF s1 this] q a w show ?case by simp
qed

lemma embed_group_refused:
  assumes "\<forall>q\<in>set ps. fst q < 100" and "disk (length fl + r) = Some e"
  shows "example_shape s fb fl num r p \<Longrightarrow> ps \<noteq> [] \<Longrightarrow> fb + length ps = FILE_BATCH_SIZE \<Longrightarrow>
           fst (embed_group disk ps s) = Some e
           \<and> example_shape (snd (embed_group disk ps s)) FILE_BATCH_SIZE fl num (Suc r)
               (p + length ps)"
  using assms(1)
proof (induction ps arbitrary: s fb p)
  case Nil
  then show ?case by simp
next
  case (Cons q ps)
  obtain chunk emb where q: "q = (chunk, emb)" by (cases q)
  obtain w s1 where a: "append_embedded disk chunk emb s = (w, s1)"
    by (cases "append_embedded disk chunk emb s")
  from Cons.prems q have c: "chunk < 100" by simp
  show ?case
  proof (cases "ps = []")
    case True
    with Cons.prems have "FILE_BATCH_SIZE \<le> Suc fb" "Suc fb = FILE_BATCH_SIZE" by simp_all
    with append_embedded_shape(3) [OF Cons.prems(1) c, of disk e emb] assms(2) a q True
    show ?thesis by simp
  next
    case False
    with Cons.prems have "Suc fb < FILE_BATCH_SIZE" by (cases ps) simp_all
    from append_embedded_shape(1) [OF Cons.prems(1) c, of disk emb] this a
    have w: "w = None" and s1: "example_shape s1 (Suc fb) fl num r (Suc p)" by simp_all
    from Cons.prems have "Suc fb + length ps = FILE_BATCH_SIZE" "\<forall>q\<in>set ps. fst q < 100"
      by simp_all
    from Cons.IH [OF s1 False this] q a w show ?thesis by simp
  qed
qed

lemma fallback_chunk_shape:
  assumes "example_shape s fb fl num r p" and "chunk < 100"
  shows "Suc fb < FILE_BATCH_SIZE \<Longrightarrow>
           example_shape (fallback_chunk disk on_skip echo_service chunk s) (Suc fb) fl num r (Suc p)"
    and "FILE_BATCH_SIZE \<le> Suc fb \<Longrightarrow> disk (length fl + r) = None \<Longrightarrow>
           example_shape (fallback_chunk disk on_skip echo_service chunk s) 0 (fl @ [(num, Suc fb)])
             (Suc num) r (Suc p)"
proof -
  from assms have t: "getitem (store s ! chunk) ''text'' = Inr (JStr ''x'')"
    and na: "aborted s = None"
    by (simp_all add: example_shape_def list_all_length)
  define s1 where "s1 = s\<lparr>calls := calls s @ [[JStr ''x'']]\<rparr>"
  from assms(1) have s1: "example_shape s1 fb fl num r p" by (simp add: s1_def)
  have f: "fallback_chunk disk on_skip echo_service chunk s =
      (case append_embedded disk chunk (JArr [JStr ''x'']) s1 of
         (None, s2) \<Rightarrow> s2 | (Some e2, s2) \<Rightarrow> on_skip chunk e2 s2)"
    using t na by (simp add: fallback_chunk_def get_embeddings_batch_def echo_service_def s1_def)
  obtain w s2 where a: "append_embedded disk chunk (JArr [JStr ''x'']) s1 = (w, s2)"
    by (cases "append_embedded disk chunk (JArr [JStr ''x'']) s1")
  show "Suc fb < FILE_BATCH_SIZE \<Longrightarrow>
           example_shape (fallback_chunk disk on_skip echo_service chunk s) (Suc fb) fl num r (Suc p)"
    using append_embedded_shape(1) [OF s1 assms(2), of disk "JArr [JStr ''x'']"] a f by simp
  show "FILE_BATCH_SIZE \<le> Suc fb \<Longrightarrow> disk (length fl + r) = None \<Longrightarrow>
           example_shape (fallback_chunk disk on_skip echo_service chunk s) 0 (fl @ [(num, Suc fb)])
             (Suc num) r (Suc p)"
    using append_embedded_shape(2) [OF s1 assms(2), of disk "JArr [JStr ''x'']"] a f by simp
qed

lemma fold_fallback_room:
  assumes "\<forall>c\<in>set cs. c < 100"
  shows "example_shape s fb fl num r p \<Longrightarrow> fb + length cs < FILE_BATCH_SIZE \<Longrightarrow>
           example_shape (fold (fallback_chunk disk on_skip echo_service) cs s)
             (fb + length cs) fl num r (p + length cs)"
  using assms
proof (induction cs arbitrary: s fb p)
  case Nil
  then show ?case by simp
next
  case (Cons c cs)
  from Cons.prems have "c < 100" "Suc fb < FILE_BATCH_SIZE" by simp_all
  from fallback_chunk_shape(1) [OF Cons.prems(1) this(1), of disk on_skip] this(2)
  have s1: "example_shape (fallback_chunk disk on_skip echo_service c s) (Suc fb) fl num r (Suc p)"
    by simp
  from Cons.prems have "Suc fb + length cs < FILE_BATCH_SIZE" "\<forall>c\<in>set cs. c < 100" by simp_all
  from Cons.IH [OF s1 this] show ?case by simp
qed

lemma texts_of_example:
  "list_all (\<lambda>d. getitem d ''text'' = Inr (JStr ''x'')) ds
     \<Longrightarrow> texts_of ds = Inr (replicate (length ds) (JStr ''x''))"
  by (induction ds) simp_all

lemma slice_upt: "i + k \<le> n \<Longrightarrow> slice [0..<n] i (i + k) = [i..<i + k]"
  by (simp add: slice_def take_upt)

lemma example_texts:
  assumes "example_shape s fb fl num r p" and "i + 25 \<le> 100"
  shows "texts_of (map (\<lambda>chunk. store s ! chunk) [i..<i + 25]) = Inr (replicate 25 (JStr ''x''))"
proof -
  have "list_all (\<lambda>d. getitem d ''text'' = Inr (JStr ''x'')) (map (\<lambda>chunk. store s ! chunk) [i..<i + 25])"
    using assms by (simp add: example_shape_def list_all_length)
  from texts_of_example [OF this] show ?thesis by simp
qed

lemma process_batch_example:
  assumes "example_shape s fb fl num r p" and "i + 25 \<le> 100"
  shows "process_batch disk on_skip progress echo_service [0..<100] i s =
      (case embed_group disk (zip [i..<i + 25] (replicate 25 (JArr [JStr ''x''])))
              (s\<lparr>calls := calls s @ [replicate 25 (JStr ''x'')]\<rparr>) of
         (None, s2) \<Rightarrow> s2\<lparr>printed := printed s2 @ [progress s2]\<rparr>
       | (Some e, s2) \<Rightarrow> fallback_group disk on_skip echo_service [i..<i + 25] i e s2)"
proof -
  from assms(1) have na: "aborted s = None" by (simp add: example_shape_def)
  show ?thesis
    using na example_texts [OF assms(1,2)] slice_upt [OF assms(2)]
    by (simp add: process_batch_def get_embeddings_batch_def echo_service_def Let_def
        EMBED_BATCH_SIZE_def)
qed

lemma process_batch_room:
  assumes "example_shape s fb fl num r p" and "i + 25 \<le> 100" and "fb + 25 < FILE_BATCH_SIZE"
  shows "example_shape (process_batch disk on_skip progress echo_service [0..<100] i s)
           (fb + 25) fl num r (p + 25)"
proof -
  define ps where "ps = zip [i..<i + 25] (replicate 25 (JArr [JStr ''x'']))"
  define s1 where "s1 = s\<lparr>calls := calls s @ [replicate 25 (JStr ''x'')]\<rparr>"
  from assms(1) have s1: "example_shape s1 fb fl num r p" by (simp add: s1_def)
  have len: "length ps = 25" by (simp add: ps_def)
  have refs: "\<forall>q\<in>set ps. fst q < 100"
    using assms(2) by (auto simp: ps_def dest!: set_zip_leftD)
  obtain w s2 where a: "embed_group disk ps s1 = (w, s2)" by (cases "embed_group disk ps s1")
  from embed_group_room [OF refs s1, of disk] assms(3) len a
  have "w = None" "example_shape s2 (fb + 25) fl num r (p + 25)" by simp_all
  with a show ?thesis
    unfolding process_batch_example [OF assms(1,2)] ps_def [symmetric] s1_def [symmetric]
    by simp
qed

lemma process_batch_refused:
  assumes "example_shape s fb [] 0 0 p" and "i + 25 \<le> 100" and "fb + 25 = FILE_BATCH_SIZE"
  shows "example_shape
           (process_batch first_write_fails on_skip progress echo_service [0..<100] i s)
           24 [(0, 101)] 1 1 (p + 50)"
proof -
  define ps where "ps = zip [i..<i + 25] (replicate 25 (JArr [JStr ''x'']))"
  define s1 where "s1 = s\<lparr>calls := calls s @ [replicate 25 (JStr ''x'')]\<rparr>"
  from assms(1) have s1: "example_shape s1 fb [] 0 0 p" by (simp add: s1_def)
  have len: "length ps = 25" "ps \<noteq> []" by (auto simp: ps_def)
  have refs: "\<forall>q\<in>set ps. fst q < 100"
    using assms(2) by (auto simp: ps_def dest!: set_zip_leftD)
  obtain w s2 where a: "embed_group first_write_fails ps s1 = (w, s2)"
    by (cases "embed_group first_write_fails ps s1")
  have d0: "first_write_fails (length ([]::(nat \<times> nat) list) + 0) = Some (OSError ''disk full'')"
    by (simp add: first_write_fails_def)
  from embed_group_refused [where disk = first_write_fails and fl = "[]" and r = 0
      and e = "OSError ''disk full''" and ps = ps and s = s1 and fb = fb and num = 0 and p = p,
      OF refs d0 s1 len(2)] len(1) assms(3) a
  have w: "w = Some (OSError ''disk full'')" and s2: "example_shape s2 100 [] 0 1 (p + 25)"
    by (simp_all add: FILE_BATCH_SIZE_def)
  define s3 where "s3 = s2\<lparr>printed := printed s2 @ [ErrorAtBatch i (OSError ''disk full'')]\<rparr>"
  from s2 have s3: "example_shape s3 100 [] 0 1 (p + 25)" by (simp add: s3_def)
  have split: "[i..<i + 25] = i # [Suc i..<i + 25]" by (simp add: upt_conv_Cons)
  have d1: "first_write_fails (length ([]::(nat \<times> nat) list) + 1) = None"
    by (simp add: first_write_fails_def)
  from assms(2) have i: "i < 100" by simp
  from fallback_chunk_shape(2) [OF s3 i, where disk = first_write_fails and on_skip = on_skip] d1
  have s4: "example_shape (fallback_chunk first_write_fails on_skip echo_service i s3)
      0 [(0, 101)] 1 1 (Suc (p + 25))"
    by (simp add: FILE_BATCH_SIZE_def)
  have "\<forall>c\<in>set [Suc i..<i + 25]. c < 100" using assms(2) by simp
  from fold_fallback_room [OF this s4, of first_write_fails on_skip]
  have "example_shape (fold (fallback_chunk first_write_fails on_skip echo_service)
      [Suc i..<i + 25] (fallback_chunk first_write_fails on_skip echo_service i s3))
      24 [(0, 101)] 1 1 (p + 50)"
    by (simp add: FILE_BATCH_SIZE_def add.commute)
  then have "example_shape (fallback_group first_write_fails on_skip echo_service [i..<i + 25] i
      (OSError ''disk full'') s2) 24 [(0, 101)] 1 1 (p + 50)"
    unfolding fallback_group_def split s3_def by simp
  with a w show ?thesis
    unfolding process_batch_example [OF assms(1,2)] ps_def [symmetric] s1_def [symmetric]
    by simp
qed

lemma example_initial:
  "example_shape \<lparr>store = replicate 100 (example_chunk ''a'' ''x''), processed = 0,
      file_batch = [], file_batch_num = 0, files = [], refused = 0, calls = [], printed = [],
      aborted = None, \<dots> = m\<rparr> 0 [] 0 0 0"
  by (simp add: example_shape_def list_all_length example_chunk_def getitem_def)

lemma batch_starts_100: "batch_starts 100 = [0, 25, 50, 75]"
  by (simp add: batch_starts_def EMBED_BATCH_SIZE_def upt_rec)

lemma process_all_refused:
  assumes "example_shape s0 0 [] 0 0 0"
  shows "aborted (process_all first_write_fails on_skip progress echo_service 100 s0) = None
       \<and> map (\<lambda>f. (fst f, length (snd f)))
           (files (process_all first_write_fails on_skip progress echo_service 100 s0))
          = [(0, 101), (1, 24)]
       \<and> processed (process_all first_write_fails on_skip progress echo_service 100 s0) = 125
       \<and> file_batch_num (process_all first_write_fails on_skip progress echo_service 100 s0) = 2
       \<and> refused (process_all first_write_fails on_skip progress echo_service 100 s0) = 1"
proof -
  define f where "f = process_batch first_write_fails on_skip progress echo_service [0..<100]"
  from process_batch_room [OF assms, of 0 first_write_fails on_skip progress]
  have a: "example_shape (f 0 s0) 25 [] 0 0 25" by (simp add: f_def FILE_BATCH_SIZE_def)
  from process_batch_room [OF a, of 25 first_write_fails on_skip progress]
  have b: "example_shape (f 25 (f 0 s0)) 50 [] 0 0 50" by (simp add: f_def FILE_BATCH_SIZE_def)
  from process_batch_room [OF b, of 50 first_write_fails on_skip progress]
  have c: "example_shape (f 50 (f 25 (f 0 s0))) 75 [] 0 0 75"
    by (simp add: f_def FILE_BATCH_SIZE_def)
  from process_batch_refused [OF c, of 75 on_skip progress]
  have d: "example_shape (f 75 (f 50 (f 25 (f 0 s0)))) 24 [(0, 101)] 1 1 125"
    by (simp add: f_def FILE_BATCH_SIZE_def)
  define s1 where "s1 = f 75 (f 50 (f 25 (f 0 s0)))"
  have pa: "process_all first_write_fails on_skip progress echo_service 100 s0
      = (if aborted s1 \<noteq> None then s1 else save_remaining first_write_fails s1)"
    by (simp add: process_all_def batch_starts_100 f_def s1_def)
  from d have len: "length (files s1) = 1" "file_batch s1 \<noteq> []"
    by (auto simp: example_shape_def s1_def)
  from d len show ?thesis
    unfolding pa
    by (simp add: s1_def [symmetric] example_shape_def save_remaining_def save_batch_def
        first_write_fails_def)
qed

text \<open>
  C4. Every file is to hold at most \<^verbatim>\<open>FILE_BATCH_SIZE\<close>, that is 100, chunks, and every
  file but the last exactly 100. In a run of \<^verbatim>\<open>process_chunks\<close> of embed_chunks.py over
  100 chunks in which every embedding call succeeds and the first write is refused, the
  first file written holds 101 chunks and the second 24: the handler of the group catches
  the exception of \<^verbatim>\<open>save_batch\<close>, \<^verbatim>\<open>file_batch\<close> has not been emptied, and the fallback
  loop appends the 25 chunks of the group a second time.
\<close>

theorem refused_write_oversized_file:
  "FILE_BATCH_SIZE = 100
   \<and> map (\<lambda>f. (fst f, length (snd f)))
     (files (process_chunks first_write_fails echo_service
               (replicate 100 (example_chunk ''a'' ''x'')) 0))
     = [(0, 101), (1, 24)]
   \<and> refused (process_chunks first_write_fails echo_service
               (replicate 100 (example_chunk ''a'' ''x'')) 0) = 1
   \<and> processed (process_chunks first_write_fails echo_service
               (replicate 100 (example_chunk ''a'' ''x'')) 0) = 125
   \<and> aborted (process_chunks first_write_fails echo_service
               (replicate 100 (example_chunk ''a'' ''x'')) 0) = None"
  using process_all_refused [OF example_initial, of skip_chunk
      "\<lambda>s. Progress 0 (processed s) 100 (file_batch_num s)" "()"]
  by (simp add: process_chunks_def Let_def FILE_BATCH_SIZE_def)

section \<open>Batch processor: runs\<close>

lemmas run_defs = process_all_def process_batch_def fallback_group_def append_embedded_def
  save_batch_def save_remaining_def get_embeddings_batch_def getitem_def setitem_def
  fallback_chunk_def skip_chunk_def skip_chunk_http_def Let_def batch_starts_def slice_def
  EMBED_BATCH_SIZE_def FILE_BATCH_SIZE_def example_chunk_def
  echo_service_def down_service_def group_fails_service_def good_disk_def first_write_fails_def

lemma run_echo:
  "process_chunks good_disk echo_service [example_chunk ''a'' ''x'', example_chunk ''b'' ''y''] 0 =
     \<lparr>store = [setitem (example_chunk ''a'' ''x'') ''embedding'' (JArr [JStr ''x'']),
               setitem (example_chunk ''b'' ''y'') ''embedding'' (JArr [JStr ''y''])],
      processed = 2, file_batch = [0, 1], file_batch_num = 1,
      files = [(0, [setitem (example_chunk ''a'' ''x'') ''embedding'' (JArr [JStr ''x'']),
                    setitem (example_chunk ''b'' ''y'') ''embedding'' (JArr [JStr ''y''])])],
      refused = 0, calls = [[JStr ''x'', JStr ''y'']],
      printed = [Progress 0 2 2 0, Done 0 2 1], aborted = None\<rparr>"
  by (simp add: process_chunks_def run_defs)

lemma run_echo_http:
  "process_chunks_http good_disk echo_service
       [example_chunk ''a'' ''x'', example_chunk ''b'' ''y''] =
     \<lparr>store = [setitem (example_chunk ''a'' ''x'') ''embedding'' (JArr [JStr ''x'']),
               setitem (example_chunk ''b'' ''y'') ''embedding'' (JArr [JStr ''y''])],
      processed = 2, file_batch = [0, 1], file_batch_num = 1,
      files = [(0, [setitem (example_chunk ''a'' ''x'') ''embedding'' (JArr [JStr ''x'']),
                    setitem (example_chunk ''b'' ''y'') ''embedding'' (JArr [JStr ''y''])])],
      refused = 0, calls = [[JStr ''x'', JStr ''y'']],
      printed = [ProgressHttp 2 2, DoneHttp 2 1], aborted = None, failed = 0\<rparr>"
  by (simp add: process_chunks_http_def run_defs)

lemma run_down:
  "process_chunks good_disk down_service [example_chunk ''a'' ''x''] 0 =
     \<lparr>store = [example_chunk ''a'' ''x''],
      processed = 0, file_batch = [], file_batch_num = 0, files = [], refused = 0,
      calls = [[JStr ''x''], [JStr ''x'']],
      printed = [ErrorAtBatch 0 (RequestError ''timeout''),
                 SkipChunk (JStr ''a'') (RequestError ''timeout''), Done 0 0 0],
      aborted = None\<rparr>"
  by (simp add: process_chunks_def run_defs)

lemma run_down_http:
  "process_chunks_http good_disk down_service [example_chunk ''a'' ''x''] =
     \<lparr>store = [example_chunk ''a'' ''x''],
      processed = 0, file_batch = [], file_batch_num = 0, files = [], refused = 0,
      calls = [[JStr ''x''], [JStr ''x'']],
      printed = [ErrorAtBatch 0 (RequestError ''timeout''),
                 SkipChunk (JStr ''a'') (RequestError ''timeout''), DoneHttp 0 0, Warning 1],
      aborted = None, failed = 1\<rparr>"
  by (simp add: process_chunks_http_def run_defs)

lemma run_group_fails:
  "process_chunks good_disk group_fails_service
       [example_chunk ''a'' ''x'', example_chunk ''b'' ''y''] 0 =
     \<lparr>store = [setitem (example_chunk ''a'' ''x'') ''embedding'' (JArr [JStr ''x'']),
               setitem (example_chunk ''b'' ''y'') ''embedding'' (JArr [JStr ''y''])],
      processed = 2, file_batch = [0, 1], file_batch_num = 1,
      files = [(0, [setitem (example_chunk ''a'' ''x'') ''embedding'' (JArr [JStr ''x'']),
                    setitem (example_chunk ''b'' ''y'') ''embedding'' (JArr [JStr ''y''])])],
      refused = 0, calls = [[JStr ''x'', JStr ''y''], [JStr ''x''], [JStr ''y'']],
      printed = [ErrorAtBatch 0 (RequestError ''500''), Done 0 2 1], aborted = None\<rparr>"
  by (simp add: process_chunks_def run_defs)

lemma run_refused:
  "process_chunks first_write_fails echo_service [example_chunk ''a'' ''x''] 0 =
     \<lparr>store = [setitem (example_chunk ''a'' ''x'') ''embedding'' (JArr [JStr ''x''])],
      processed = 1, file_batch = [0], file_batch_num = 0, files = [], refused = 1,
      calls = [[JStr ''x'']], printed = [Progress 0 1 1 0],
      aborted = Some (OSError ''disk full'')\<rparr>"
  by (simp add: process_chunks_def run_defs)

section \<open>Batch processor: the files of a run\<close>

lemma process_chunks_fields:
  "files (process_chunks disk service chunks pod_id)
     = files (process_all disk skip_chunk
         (\<lambda>s. Progress pod_id (processed s) (length chunks) (file_batch_num s)) service
         (length chunks)
         \<lparr>store = chunks, processed = 0, file_batch = [], file_batch_num = 0, files = [],
           refused = 0, calls = [], printed = [], aborted = None\<rparr>)"
  "refused (process_chunks disk service chunks pod_id)
     = refused (process_all disk skip_chunk
         (\<lambda>s. Progress pod_id (processed s) (length chunks) (file_batch_num s)) service
         (length chunks)
         \<lparr>store = chunks, processed = 0, file_batch = [], file_batch_num = 0, files = [],
           refused = 0, calls = [], printed = [], aborted = None\<rparr>)"
  "aborted (process_chunks disk service chunks pod_id)
     = aborted (process_all disk skip_chunk
         (\<lambda>s. Progress pod_id (processed s) (length chunks) (file_batch_num s)) service
         (length chunks)
         \<lparr>store = chunks, processed = 0, file_batch = [], file_batch_num = 0, files = [],
           refused = 0, calls = [], printed = [], aborted = None\<rparr>)"
  "processed (process_chunks disk service chunks pod_id)
     = processed (process_all disk skip_chunk
         (\<lambda>s. Progress pod_id (processed s) (length chunks) (file_batch_num s)) service
         (length chunks)
         \<lparr>store = chunks, processed = 0, file_batch = [], file_batch_num = 0, files = [],
           refused = 0, calls = [], printed = [], aborted = None\<rparr>)"
  by (simp_all add: process_chunks_def Let_def)

lemma process_chunks_http_fields:
  "files (process_chunks_http disk service chunks)
     = files (process_all disk skip_chunk_http
         (\<lambda>s. ProgressHttp (processed s) (length chunks)) service (length chunks)
         \<lparr>store = chunks, processed = 0, file_batch = [], file_batch_num = 0, files = [],
           refused = 0, calls = [], printed = [], aborted = None, failed = 0\<rparr>)"
  "refused (process_chunks_http disk service chunks)
     = refused (process_all disk skip_chunk_http
         (\<lambda>s. ProgressHttp (processed s) (length chunks)) service (length chunks)
         \<lparr>store = chunks, processed = 0, file_batch = [], file_batch_num = 0, files = [],
           refused = 0, calls = [], printed = [], aborted = None, failed = 0\<rparr>)"
  "aborted (process_chunks_http disk service chunks)
     = aborted (process_all disk skip_chunk_http
         (\<lambda>s. ProgressHttp (processed s) (length chunks)) service (length chunks)
         \<lparr>store = chunks, processed = 0, file_batch = [], file_batch_num = 0, files = [],
           refused = 0, calls = [], printed = [], aborted = None, failed = 0\<rparr>)"
  "processed (process_chunks_http disk service chunks)
     = processed (process_all disk skip_chunk_http
         (\<lambda>s. ProgressHttp (processed s) (length chunks)) service (length chunks)
         \<lparr>store = chunks, processed = 0, file_batch = [], file_batch_num = 0, files = [],
           refused = 0, calls = [], printed = [], aborted = None, failed = 0\<rparr>)"
  by (simp_all add: process_chunks_http_def Let_def)

text \<open>
  As long as no write is refused, no file written by \<^verbatim>\<open>process_chunks\<close>, of embed_chunks.py
  as of embed_via_http.py, holds more than \<^verbatim>\<open>FILE_BATCH_SIZE\<close> chunks, and every file but
  the last written holds exactly that many.
\<close>

lemma files_full_unless_refused:
  "(refused (process_chunks disk service chunks pod_id) = 0 \<longrightarrow>
      (\<forall>f\<in>set (files (process_chunks disk service chunks pod_id)).
          length (snd f) \<le> FILE_BATCH_SIZE)
      \<and> (\<forall>f\<in>set (butlast (files (process_chunks disk service chunks pod_id))).
          length (snd f) = FILE_BATCH_SIZE))
   \<and> (refused (process_chunks_http disk service chunks) = 0 \<longrightarrow>
      (\<forall>f\<in>set (files (process_chunks_http disk service chunks)).
          length (snd f) \<le> FILE_BATCH_SIZE)
      \<and> (\<forall>f\<in>set (butlast (files (process_chunks_http disk service chunks))).
          length (snd f) = FILE_BATCH_SIZE))"
proof -
  define s2 where "s2 = process_all disk skip_chunk
         (\<lambda>s. Progress pod_id (processed s) (length chunks) (file_batch_num s)) service
         (length chunks)
         \<lparr>store = chunks, processed = 0, file_batch = [], file_batch_num = 0, files = [],
           refused = 0, calls = [], printed = [], aborted = None\<rparr>"
  define h2 where "h2 = process_all disk skip_chunk_http
         (\<lambda>s. ProgressHttp (processed s) (length chunks)) service (length chunks)
         \<lparr>store = chunks, processed = 0, file_batch = [], file_batch_num = 0, files = [],
           refused = 0, calls = [], printed = [], aborted = None, failed = 0\<rparr>"
  have a: "(\<forall>f\<in>set (files s2). length (snd f) \<le> FILE_BATCH_SIZE)
      \<and> (\<forall>f\<in>set (butlast (files s2)). length (snd f) = FILE_BATCH_SIZE)" if "refused s2 = 0"
    using that
      process_all_files_bound [where on_skip = skip_chunk, OF skip_chunk_grows initial_inv]
    by (simp add: s2_def)
  have b: "(\<forall>f\<in>set (files h2). length (snd f) \<le> FILE_BATCH_SIZE)
      \<and> (\<forall>f\<in>set (butlast (files h2)). length (snd f) = FILE_BATCH_SIZE)" if "refused h2 = 0"
    using that
      process_all_files_bound [where on_skip = skip_chunk_http, OF skip_chunk_http_grows
        initial_inv]
    by (simp add: h2_def)
  show ?thesis
    unfolding process_chunks_fields process_chunks_http_fields s2_def [symmetric]
      h2_def [symmetric]
    using a b by blast
qed

text \<open>
  C10. When a run reaches its end, the chunks in the files written are as many as the
  processed counter says, and the file count of the final line is the number of files
  written. A run reaches its end when no exception leaves it, so its last write, the one
  outside every \<^verbatim>\<open>try\<close>, has succeeded; the writes refused before that do not matter.
\<close>

theorem written_matches_counters:
  "(aborted (process_chunks disk service chunks pod_id) = None \<longrightarrow>
      sum_list (map (\<lambda>f. length (snd f)) (files (process_chunks disk service chunks pod_id)))
        = processed (process_chunks disk service chunks pod_id)
      \<and> last (printed (process_chunks disk service chunks pod_id))
        = Done pod_id (processed (process_chunks disk service chunks pod_id))
            (length (files (process_chunks disk service chunks pod_id))))
   \<and> (aborted (process_chunks_http disk service chunks) = None \<longrightarrow>
      sum_list (map (\<lambda>f. length (snd f)) (files (process_chunks_http disk service chunks)))
        = processed (process_chunks_http disk service chunks)
      \<and> DoneHttp (processed (process_chunks_http disk service chunks))
            (length (files (process_chunks_http disk service chunks)))
          \<in> set (printed (process_chunks_http disk service chunks)))"
proof -
  define s2 where "s2 = process_all disk skip_chunk
         (\<lambda>s. Progress pod_id (processed s) (length chunks) (file_batch_num s)) service
         (length chunks)
         \<lparr>store = chunks, processed = 0, file_batch = [], file_batch_num = 0, files = [],
           refused = 0, calls = [], printed = [], aborted = None\<rparr>"
  define h2 where "h2 = process_all disk skip_chunk_http
         (\<lambda>s. ProgressHttp (processed s) (length chunks)) service (length chunks)
         \<lparr>store = chunks, processed = 0, file_batch = [], file_batch_num = 0, files = [],
           refused = 0, calls = [], printed = [], aborted = None, failed = 0\<rparr>"
  have a: "sum_list (map (\<lambda>f. length (snd f)) (files s2)) = processed s2
      \<and> file_batch_num s2 = length (files s2)" if "aborted s2 = None"
    using that process_all_counts [where on_skip = skip_chunk, OF skip_chunk_grows initial_inv] by (simp add: s2_def)
  have b: "sum_list (map (\<lambda>f. length (snd f)) (files h2)) = processed h2
      \<and> file_batch_num h2 = length (files h2)" if "aborted h2 = None"
    using that process_all_counts [where on_skip = skip_chunk_http, OF skip_chunk_http_grows initial_inv] by (simp add: h2_def)
  have p: "process_chunks disk service chunks pod_id
      = (if aborted s2 \<noteq> None then s2
         else s2\<lparr>printed := printed s2 @ [Done pod_id (processed s2) (file_batch_num s2)]\<rparr>)"
    by (simp add: process_chunks_def Let_def s2_def)
  have q: "process_chunks_http disk service chunks
      = (if aborted h2 \<noteq> None then h2
         else h2\<lparr>printed := printed h2 @ [DoneHttp (processed h2) (file_batch_num h2)]
                              @ (if failed h2 > 0 then [Warning (failed h2)] else [])\<rparr>)"
    by (simp add: process_chunks_http_def Let_def h2_def)
  show ?thesis unfolding p q using a b by auto
qed

theorem written_matches_counters_witness:
  "aborted (process_chunks good_disk echo_service
              [example_chunk ''a'' ''x'', example_chunk ''b'' ''y''] 0) = None
   \<and> aborted (process_chunks_http good_disk down_service [example_chunk ''a'' ''x'']) = None
   \<and> sum_list (map (\<lambda>f. length (snd f))
        (files (process_chunks good_disk echo_service
                  [example_chunk ''a'' ''x'', example_chunk ''b'' ''y''] 0)))
      = 2
   \<and> last (printed (process_chunks good_disk echo_service
                      [example_chunk ''a'' ''x'', example_chunk ''b'' ''y''] 0)) = Done 0 2 1
   \<and> DoneHttp 0 0
       \<in> set (printed (process_chunks_http good_disk down_service [example_chunk ''a'' ''x'']))"
  using written_matches_counters
      [of good_disk echo_service "[example_chunk ''a'' ''x'', example_chunk ''b'' ''y'']" 0]
    written_matches_counters [of good_disk down_service "[example_chunk ''a'' ''x'']" 0]
  by (simp add: run_echo run_down_http)

end
